theory Spec2Isabelle
  imports Main "HOL-Library.Word"
begin

section \<open>The UDP transport of the resolver (src/udp.cpp)\<close>

text \<open>
  The class \<open>Udp\<close> owns one datagram socket. \<open>notify\<close> drains the socket into the
  list \<open>_responses\<close>, \<open>idle\<close> hands one queued response per call to the user-space
  handler, \<open>send\<close> opens the socket when needed and transmits a query.

  The embedding passes two states explicitly: the members of the object (\<open>udp\<close>) and
  everything outside the object that the code talks to (\<open>world\<close>): the kernel's
  descriptor table, the event loop of the core, the clock, and a trace of every call
  that leaves the object, oldest first.
\<close>

subsection \<open>Data\<close>

type_synonym bytes = "8 word list"

text \<open>The query is opaque here: \<open>query.data()\<close> with \<open>query.size()\<close> bytes.\<close>
type_synonym query = bytes

text \<open>\<open>Ip\<close>: an address of version 4 or 6 (\<open>ip.version()\<close>).\<close>
datatype ip = Ip4 "32 word" | Ip6 "128 word"

fun version :: "ip \<Rightarrow> nat" where
  "version (Ip4 a) = 4"
| "version (Ip6 a) = 6"

datatype family = AF_INET | AF_INET6

text \<open>
  \<open>struct sockaddr\<close> as a tagged union over \<open>sa_family\<close>: \<open>sockaddr_in\<close>
  (port, address), \<open>sockaddr_in6\<close> (port, flowinfo, address, scope id), or a structure
  of any other family, of which only the family number matters here.
\<close>
datatype sockaddr =
    Sockaddr_in "16 word" "32 word"
  | Sockaddr_in6 "16 word" "32 word" "128 word" "32 word"
  | Sockaddr_other nat

datatype exn = Runtime_error | Other_exception

datatype outcome = Returned | Thrown exn

text \<open>
  Modelled from the spec: the class \<open>Response\<close> (its header is not under src/), the
  spec's CapturedDatagram: capture timestamp, raw source address, payload and its
  length. The constructor call \<open>Response(now, from, buffer, bytes)\<close> of \<open>notify\<close> keeps
  the first \<open>bytes\<close> bytes of the buffer.
\<close>
record response =
  r_now :: nat
  r_from :: sockaddr
  r_data :: bytes

definition Response :: "nat \<Rightarrow> sockaddr \<Rightarrow> bytes \<Rightarrow> int \<Rightarrow> response" where
  "Response now from buffer nbytes =
     \<lparr>r_now = now, r_from = from, r_data = take (nat nbytes) buffer\<rparr>"

definition r_size :: "response \<Rightarrow> nat" where
  "r_size r = length (r_data r)"

text \<open>
  Modelled from the spec: \<open>Response::ip()\<close>, the reconstruction of the source address
  from the raw bytes (class \<open>Ip\<close> is not under src/). It fails on an unsupported family,
  and the failure is the \<open>std::runtime_error\<close> that \<open>idle\<close> guards against.
\<close>
fun r_ip :: "response \<Rightarrow> exn + ip" where
  "r_ip r = (case r_from r of
       Sockaddr_in port a \<Rightarrow> Inr (Ip4 a)
     | Sockaddr_in6 port flow a scope \<Rightarrow> Inr (Ip6 a)
     | Sockaddr_other fam \<Rightarrow> Inl Runtime_error)"

text \<open>
  The members of \<open>Udp\<close>: \<open>_fd\<close> (negative when there is no socket), \<open>_identifier\<close>
  (what \<open>Loop::add\<close> returned, \<open>None\<close> for \<open>nullptr\<close>), \<open>_idle\<close> (what \<open>Loop::idle\<close>
  returned, \<open>None\<close> for \<open>nullptr\<close>) and the list \<open>_responses\<close>.
\<close>
record udp =
  m_fd :: int
  m_identifier :: "nat option"
  m_idle :: "nat option"
  m_responses :: "response list"

text \<open>
  Modelled from the spec: the in-class initialisers of the members (udp.h is not under
  src/; the constructor in udp.cpp sets only \<open>_core\<close> and \<open>_handler\<close>). The transport
  is created closed, with no watcher and an empty queue.
\<close>
definition Udp :: udp where
  "Udp = \<lparr>m_fd = - 1, m_identifier = None, m_idle = None, m_responses = []\<rparr>"

subsection \<open>The world outside the object\<close>

text \<open>
  What waits in the receive queue of a socket: a datagram (source address, source port,
  payload) or a pending socket error, which the next receive reports and clears.
\<close>
datatype pending = Datagram ip "16 word" bytes | Socket_error

record sock =
  sock_family :: family
  incoming :: "pending list"

datatype sockopt = SO_SNDBUF | SO_RCVBUF

datatype event =
    Socket family int
  | SetSockOpt int sockopt int
  | LoopAdd int nat
  | LoopRemove "nat option" int
  | CloseFd int
  | Poll int
  | RecvFrom int int
  | SendTo int bytes sockaddr int
  | LoopIdle nat
  | LoopCancel "nat option"
  | OnReceived ip bytes nat

text \<open>
  \<open>sockets\<close> is the kernel's descriptor table; \<open>next_socket\<close> is what the next
  \<open>socket()\<close> call has to offer (negative: the kernel refuses). \<open>buffersize\<close> is
  \<open>_core->buffersize()\<close>. \<open>monitors\<close> and \<open>idlers\<close> are the registrations that
  \<open>_core->loop()\<close> holds for this object, \<open>next_token\<close> the next identifier it hands
  out (never \<open>nullptr\<close>). \<open>clock\<close> is what \<open>Now\<close> reads. \<open>link_down\<close> makes
  \<open>sendto\<close> fail.
\<close>
record world =
  sockets :: "int \<Rightarrow> sock option"
  next_socket :: int
  buffersize :: int
  monitors :: "(nat \<times> int) list"
  idlers :: "nat list"
  next_token :: nat
  clock :: nat
  link_down :: bool
  trace :: "event list"

definition emit :: "event \<Rightarrow> world \<Rightarrow> world" where
  "emit e w = w\<lparr>trace := trace w @ [e]\<rparr>"

text \<open>\<open>socket(family, SOCK_DGRAM | SOCK_CLOEXEC, 0)\<close>: a fresh descriptor, or -1.\<close>
definition sys_socket :: "family \<Rightarrow> world \<Rightarrow> int \<times> world" where
  "sys_socket fam w =
     (if next_socket w < 0 then (- 1, emit (Socket fam (- 1)) w)
      else (next_socket w,
            emit (Socket fam (next_socket w))
              (w\<lparr>sockets := (sockets w)(next_socket w \<mapsto> \<lparr>sock_family = fam, incoming = []\<rparr>),
                 next_socket := next_socket w + 1\<rparr>)))"

text \<open>\<open>setsockopt(fd, SOL_SOCKET, optname, &optval, 4)\<close>.\<close>
definition sys_setsockopt :: "int \<Rightarrow> sockopt \<Rightarrow> int \<Rightarrow> world \<Rightarrow> int \<times> world" where
  "sys_setsockopt d optname optval w =
     ((if sockets w d = None then - 1 else 0), emit (SetSockOpt d optname optval) w)"

text \<open>\<open>::close(fd)\<close>.\<close>
definition sys_close :: "int \<Rightarrow> world \<Rightarrow> world" where
  "sys_close d w = emit (CloseFd d) (w\<lparr>sockets := (sockets w)(d := None)\<rparr>)"

text \<open>
  \<open>poll(&info, 1, 0)\<close> with \<open>events = POLLIN\<close>: the number of descriptors with an
  event. A descriptor that is not open is reported too (POLLNVAL).
\<close>
definition sys_poll :: "int \<Rightarrow> world \<Rightarrow> int \<times> world" where
  "sys_poll d w =
     ((case sockets w d of
         None \<Rightarrow> 1
       | Some s \<Rightarrow> if incoming s = [] then 0 else 1),
      emit (Poll d) w)"

fun sockaddr_of :: "ip \<Rightarrow> 16 word \<Rightarrow> sockaddr" where
  "sockaddr_of (Ip4 a) port = Sockaddr_in port a"
| "sockaddr_of (Ip6 a) port = Sockaddr_in6 port 0 a 0"

text \<open>
  \<open>recvfrom(fd, buffer, 65536, MSG_DONTWAIT, &from, &fromlen)\<close>: the byte count (or
  -1), the source address and the buffer. After a failure the address and the buffer
  are not looked at by the caller; the model returns fixed values for them.
\<close>
definition sys_recvfrom :: "int \<Rightarrow> world \<Rightarrow> int \<times> sockaddr \<times> bytes \<times> world" where
  "sys_recvfrom d w =
     (case sockets w d of
        None \<Rightarrow> (- 1, Sockaddr_other 0, [], emit (RecvFrom d (- 1)) w)
      | Some s \<Rightarrow>
          (case incoming s of
             [] \<Rightarrow> (- 1, Sockaddr_other 0, [], emit (RecvFrom d (- 1)) w)
           | Socket_error # rest \<Rightarrow>
               (- 1, Sockaddr_other 0, [],
                emit (RecvFrom d (- 1)) (w\<lparr>sockets := (sockets w)(d \<mapsto> s\<lparr>incoming := rest\<rparr>)\<rparr>))
           | Datagram src port payload # rest \<Rightarrow>
               (int (length (take 65536 payload)), sockaddr_of src port, take 65536 payload,
                emit (RecvFrom d (int (length (take 65536 payload))))
                  (w\<lparr>sockets := (sockets w)(d \<mapsto> s\<lparr>incoming := rest\<rparr>)\<rparr>))))"

text \<open>
  Whether a socket of a family takes a destination, as Linux does: an AF_INET socket
  takes a \<open>sockaddr_in\<close>, and an address of family AF_UNSPEC (0) as if it were one,
  and refuses the rest (EAFNOSUPPORT); an AF_INET6 socket takes a \<open>sockaddr_in6\<close> and
  a \<open>sockaddr_in\<close>, and has no destination in anything else.
\<close>
fun takes :: "family \<Rightarrow> sockaddr \<Rightarrow> bool" where
  "takes AF_INET (Sockaddr_in port a) = True"
| "takes AF_INET (Sockaddr_in6 port flow a scope) = False"
| "takes AF_INET (Sockaddr_other fam) = (fam = 0)"
| "takes AF_INET6 (Sockaddr_in port a) = True"
| "takes AF_INET6 (Sockaddr_in6 port flow a scope) = True"
| "takes AF_INET6 (Sockaddr_other fam) = False"

text \<open>
  The longest payload of a datagram to a destination: 65535 less the UDP header, and
  less the IP header where the datagram travels over IPv4 (EMSGSIZE beyond it).
\<close>
fun max_payload :: "sockaddr \<Rightarrow> nat" where
  "max_payload (Sockaddr_in6 port flow a scope) = 65527"
| "max_payload (Sockaddr_in port a) = 65507"
| "max_payload (Sockaddr_other fam) = 65507"

text \<open>
  \<open>sendto(fd, data, size, MSG_NOSIGNAL, address, addrlen)\<close>: the number of bytes sent,
  or -1: for a descriptor that is not open, for a destination that the socket does not
  take, for a payload that no datagram holds, and when the datagram cannot leave.
\<close>
definition sys_sendto :: "int \<Rightarrow> bytes \<Rightarrow> sockaddr \<Rightarrow> world \<Rightarrow> int \<times> world" where
  "sys_sendto d payload address w =
     (if (case sockets w d of None \<Rightarrow> True | Some s \<Rightarrow> \<not> takes (sock_family s) address)
         \<or> max_payload address < length payload
         \<or> link_down w
      then (- 1, emit (SendTo d payload address (- 1)) w)
      else (int (length payload), emit (SendTo d payload address (int (length payload))) w))"

text \<open>
  Modelled from the spec: the event loop behind \<open>_core->loop()\<close> (the interface
  \<open>Loop\<close> is not under src/), with the four calls that the transport makes on it:
  \<open>add\<close> registers a descriptor and returns a token, \<open>remove\<close> takes the registration
  back, \<open>idle\<close> arms an idle watcher and returns its token, \<open>cancel\<close> disarms it.
\<close>
definition loop_add :: "int \<Rightarrow> world \<Rightarrow> nat option \<times> world" where
  "loop_add d w =
     (Some (next_token w),
      emit (LoopAdd d (next_token w))
        (w\<lparr>monitors := monitors w @ [(next_token w, d)], next_token := Suc (next_token w)\<rparr>))"

definition loop_remove :: "nat option \<Rightarrow> int \<Rightarrow> world \<Rightarrow> world" where
  "loop_remove ident d w =
     emit (LoopRemove ident d)
       (w\<lparr>monitors := filter (\<lambda>m. Some (fst m) \<noteq> ident) (monitors w)\<rparr>)"

definition loop_idle :: "world \<Rightarrow> nat option \<times> world" where
  "loop_idle w =
     (Some (next_token w),
      emit (LoopIdle (next_token w))
        (w\<lparr>idlers := idlers w @ [next_token w], next_token := Suc (next_token w)\<rparr>))"

definition loop_cancel :: "nat option \<Rightarrow> world \<Rightarrow> world" where
  "loop_cancel ident w =
     emit (LoopCancel ident) (w\<lparr>idlers := filter (\<lambda>t. Some t \<noteq> ident) (idlers w)\<rparr>)"

text \<open>
  The handler is user-space code that the transport does not own. It is given the
  address, the payload and its size; it may return or throw, and it may do anything to
  the transport and to the world, up to destroying the transport.
\<close>
type_synonym handler = "ip \<Rightarrow> bytes \<Rightarrow> nat \<Rightarrow> udp \<times> world \<Rightarrow> outcome \<times> udp \<times> world"

subsection \<open>The member functions\<close>

text \<open>\<open>Udp::setintopt\<close>.\<close>
definition Udp_setintopt :: "sockopt \<Rightarrow> int \<Rightarrow> udp \<times> world \<Rightarrow> int \<times> world" where
  "Udp_setintopt optname optval s = sys_setsockopt (m_fd (fst s)) optname optval (snd s)"

text \<open>\<open>Udp::open\<close>.\<close>
definition Udp_open :: "nat \<Rightarrow> udp \<times> world \<Rightarrow> bool \<times> udp \<times> world" where
  "Udp_open ver s =
     (case s of (u, w) \<Rightarrow>
        if 0 \<le> m_fd u then (True, u, w)
        else
          (case sys_socket (if ver = 6 then AF_INET6 else AF_INET) w of (d, w1) \<Rightarrow>
             let u1 = u\<lparr>m_fd := d\<rparr> in
             if m_fd u1 < 0 then (False, u1, w1)
             else
               let w2 = (if 0 < buffersize w1
                         then snd (Udp_setintopt SO_RCVBUF (buffersize w1)
                                (u1, snd (Udp_setintopt SO_SNDBUF (buffersize w1) (u1, w1))))
                         else w1)
               in (case loop_add (m_fd u1) w2 of (ident, w3) \<Rightarrow>
                     (True, u1\<lparr>m_identifier := ident\<rparr>, w3))))"

text \<open>\<open>Udp::stop\<close>.\<close>
definition Udp_stop :: "udp \<times> world \<Rightarrow> udp \<times> world" where
  "Udp_stop s =
     (case s of (u, w) \<Rightarrow>
        if m_idle u = None then (u, w)
        else (u\<lparr>m_idle := None\<rparr>, loop_cancel (m_idle u) w))"

text \<open>\<open>Udp::close\<close>.\<close>
definition Udp_close :: "udp \<times> world \<Rightarrow> bool \<times> udp \<times> world" where
  "Udp_close s =
     (case s of (u, w) \<Rightarrow>
        if m_fd u < 0 then (False, u, w)
        else (True, u\<lparr>m_fd := - 1, m_identifier := None\<rparr>,
              sys_close (m_fd u) (loop_remove (m_identifier u) (m_fd u) w)))"

text \<open>\<open>Udp::~Udp\<close>: close the socket, stop the watcher.\<close>
definition Udp_destroy :: "udp \<times> world \<Rightarrow> udp \<times> world" where
  "Udp_destroy s = Udp_stop (snd (Udp_close s))"

text \<open>\<open>Udp::readable\<close>.\<close>
definition Udp_readable :: "udp \<times> world \<Rightarrow> bool \<times> world" where
  "Udp_readable s =
     (case s of (u, w) \<Rightarrow>
        if m_fd u < 0 then (False, w)
        else (case sys_poll (m_fd u) w of (n, w1) \<Rightarrow> (0 < n, w1)))"

text \<open>
  The \<open>do ... while (++messages < 1024)\<close> loop of \<open>Udp::notify\<close>; \<open>messages\<close> is the
  counter on entry of the body.
\<close>
function drain :: "nat \<Rightarrow> nat \<Rightarrow> udp \<times> world \<Rightarrow> udp \<times> world" where
  "drain messages now (u, w) =
     (case sys_recvfrom (m_fd u) w of (nbytes, from, buffer, w1) \<Rightarrow>
        if nbytes \<le> 0 then (u, w1)
        else
          let u1 = u\<lparr>m_responses := m_responses u @ [Response now from buffer nbytes]\<rparr>
          in if Suc messages < 1024 then drain (Suc messages) now (u1, w1) else (u1, w1))"
  by pat_completeness auto
termination
  by (relation "measure (\<lambda>(messages, now, s). 1024 - messages)") auto

text \<open>\<open>Udp::notify\<close>.\<close>
definition Udp_notify :: "udp \<times> world \<Rightarrow> udp \<times> world" where
  "Udp_notify s =
     (case s of (u, w) \<Rightarrow>
        if m_fd u < 0 then (u, w)
        else
          (case drain 0 (clock w) (u, w) of (u1, w1) \<Rightarrow>
             if m_idle u1 \<noteq> None then (u1, w1)
             else (case loop_idle w1 of (t, w2) \<Rightarrow> (u1\<lparr>m_idle := t\<rparr>, w2))))"

text \<open>
  \<open>Udp::idle\<close>. The \<open>try\<close> block splices the first response into the one-element list
  \<open>oneitem\<close>, reconstructs the address and calls the handler; a \<open>std::runtime_error\<close>
  from either is caught by the empty \<open>catch\<close> block, any other exception leaves the
  function.
\<close>
definition Udp_idle :: "handler \<Rightarrow> udp \<times> world \<Rightarrow> outcome \<times> udp \<times> world" where
  "Udp_idle h s =
     (case s of (u, w) \<Rightarrow>
        (case m_responses u of
           [] \<Rightarrow> (Returned, Udp_stop (u, w))
         | x # rest \<Rightarrow>
             let oneitem = [x];
                 u1 = u\<lparr>m_responses := rest\<rparr>;
                 front = hd oneitem
             in (case r_ip front of
                   Inl e \<Rightarrow> (if e = Runtime_error then (Returned, u1, w) else (Thrown e, u1, w))
                 | Inr a \<Rightarrow>
                     (case h a (r_data front) (r_size front) (u1, w) of
                        (Thrown Runtime_error, s1) \<Rightarrow> (Returned, s1)
                      | (res, s1) \<Rightarrow> (res, s1)))))"

text \<open>\<open>Udp::send(const struct sockaddr *, size_t, const Query &)\<close>.\<close>
definition Udp_send_to :: "sockaddr \<Rightarrow> query \<Rightarrow> udp \<times> world \<Rightarrow> bool \<times> udp \<times> world" where
  "Udp_send_to address q s =
     (case Udp_readable s of (r, w1) \<Rightarrow>
        (case (if r then Udp_notify (fst s, w1) else (fst s, w1)) of (u2, w2) \<Rightarrow>
           (case sys_sendto (m_fd u2) q address w2 of (n, w3) \<Rightarrow> (0 \<le> n, u2, w3))))"

text \<open>\<open>Udp::send(const Ip &, const Query &)\<close>; the port is 53.\<close>
definition Udp_send :: "ip \<Rightarrow> query \<Rightarrow> udp \<times> world \<Rightarrow> bool \<times> udp \<times> world" where
  "Udp_send a q s =
     (case (if m_fd (fst s) < 0 then Udp_open (version a) s else (True, s)) of (ok, s1) \<Rightarrow>
        if m_fd (fst s) < 0 \<and> \<not> ok then (False, s1)
        else
          (case a of
             Ip6 x \<Rightarrow> Udp_send_to (Sockaddr_in6 53 0 x 0) q s1
           | Ip4 x \<Rightarrow> Udp_send_to (Sockaddr_in 53 x) q s1))"

subsection \<open>Observing the transport\<close>

text \<open>
  A handler that leaves the transport alone: it returns, and the call shows in the
  trace.
\<close>
definition recording :: handler where
  "recording a d n s = (Returned, fst s, emit (OnReceived a d n) (snd s))"

text \<open>\<open>n\<close> successive invocations of \<open>idle\<close> by the event loop.\<close>
fun ticks :: "nat \<Rightarrow> udp \<times> world \<Rightarrow> udp \<times> world" where
  "ticks 0 s = s"
| "ticks (Suc n) s = ticks n (snd (Udp_idle recording s))"

fun is_OnReceived :: "event \<Rightarrow> bool" where
  "is_OnReceived (OnReceived a d n) = True"
| "is_OnReceived e = False"

fun is_LoopRemove :: "event \<Rightarrow> bool" where
  "is_LoopRemove (LoopRemove t d) = True"
| "is_LoopRemove e = False"

text \<open>The calls of the handler so far, oldest first.\<close>
definition received :: "world \<Rightarrow> event list" where
  "received w = filter is_OnReceived (trace w)"

text \<open>The handler call that a queued response leads to, if its address reconstructs.\<close>
definition handed :: "response \<Rightarrow> event list" where
  "handed r = (case r_ip r of Inl e \<Rightarrow> [] | Inr a \<Rightarrow> [OnReceived a (r_data r) (r_size r)])"

text \<open>The receive queue of descriptor \<open>d\<close>.\<close>
definition pending_of :: "world \<Rightarrow> int \<Rightarrow> pending list" where
  "pending_of w d = (case sockets w d of None \<Rightarrow> [] | Some s \<Rightarrow> incoming s)"

text \<open>A pending item on which \<open>recvfrom\<close> returns a positive byte count.\<close>
fun positive :: "pending \<Rightarrow> bool" where
  "positive (Datagram src port payload) = (payload \<noteq> [])"
| "positive Socket_error = False"

text \<open>The response that a drain at time \<open>now\<close> stores for a pending datagram.\<close>
fun capture :: "nat \<Rightarrow> pending \<Rightarrow> response list" where
  "capture now (Datagram src port payload) =
     [\<lparr>r_now = now, r_from = sockaddr_of src port, r_data = take 65536 payload\<rparr>]"
| "capture now Socket_error = []"

text \<open>The handler call that a pending datagram leads to once it is dispatched.\<close>
fun arrival :: "pending \<Rightarrow> event list" where
  "arrival (Datagram src port payload) =
     [OnReceived src (take 65536 payload) (length (take 65536 payload))]"
| "arrival Socket_error = []"

text \<open>
  What a drain with a budget of \<open>n\<close> receive calls takes from a queue: the leading
  positive items, at most \<open>n\<close> of them; and how many items it removes: those, and the
  item that stopped it, if one did.
\<close>
definition taken :: "nat \<Rightarrow> pending list \<Rightarrow> pending list" where
  "taken n q = takeWhile positive (take n q)"

definition consumed :: "nat \<Rightarrow> pending list \<Rightarrow> nat" where
  "consumed n q =
     length (taken n q) + (if length (taken n q) < n \<and> length (taken n q) < length q then 1 else 0)"

text \<open>The calls that the event loop and the resolver make on a live transport.\<close>
datatype call = Open nat | Close | Readable | Notify | Idle | Send ip query

fun exec :: "call \<Rightarrow> udp \<times> world \<Rightarrow> udp \<times> world" where
  "exec (Open ver) s = snd (Udp_open ver s)"
| "exec Close s = snd (Udp_close s)"
| "exec Readable s = (fst s, snd (Udp_readable s))"
| "exec Notify s = Udp_notify s"
| "exec Idle s = snd (Udp_idle recording s)"
| "exec (Send a q) s = snd (Udp_send a q s)"


text \<open>
  The states the transport lives in: the descriptor is open or -1, the identifier is
  there exactly when the descriptor is open, the loop holds exactly the idle watcher
  that \<open>_idle\<close> names, and a non-empty queue has a watcher.
\<close>
definition consistent :: "udp \<times> world \<Rightarrow> bool" where
  "consistent s =
     ((0 \<le> m_fd (fst s) \<or> m_fd (fst s) = - 1) \<and>
      (m_identifier (fst s) \<noteq> None) = (0 \<le> m_fd (fst s)) \<and>
      idlers (snd s) = (case m_idle (fst s) of None \<Rightarrow> [] | Some t \<Rightarrow> [t]) \<and>
      (m_responses (fst s) = [] \<or> m_idle (fst s) \<noteq> None))"


definition family_of :: "ip \<Rightarrow> family" where
  "family_of a = (if version a = 6 then AF_INET6 else AF_INET)"

subsection \<open>Concrete states\<close>

text \<open>A world with no socket and no registration, in which descriptor 3 is next.\<close>
definition world0 :: world where
  "world0 = \<lparr>sockets = Map.empty, next_socket = 3, buffersize = 0, monitors = [],
             idlers = [], next_token = 0, clock = 7, link_down = False, trace = []\<rparr>"

text \<open>The same world when the kernel has no descriptor left.\<close>
definition world_full :: world where
  "world_full = world0\<lparr>next_socket := - 1\<rparr>"

text \<open>
  The transport after \<open>open(4)\<close> in \<open>world0\<close>, and the world then, with \<open>q\<close> in the
  receive queue of the socket.
\<close>
definition udp3 :: udp where
  "udp3 = \<lparr>m_fd = 3, m_identifier = Some 0, m_idle = None, m_responses = []\<rparr>"

definition world3 :: "pending list \<Rightarrow> world" where
  "world3 q = \<lparr>sockets = [3 \<mapsto> \<lparr>sock_family = AF_INET, incoming = q\<rparr>], next_socket = 4,
               buffersize = 0, monitors = [(0, 3)], idlers = [], next_token = 1, clock = 7,
               link_down = False, trace = [Socket AF_INET 3, LoopAdd 3 0]\<rparr>"

text \<open>
  The same transport with the watcher armed (\<open>Loop::idle\<close> returned 1) and \<open>rs\<close> in
  the queue, and the world then.
\<close>
definition udp_armed :: "response list \<Rightarrow> udp" where
  "udp_armed rs = \<lparr>m_fd = 3, m_identifier = Some 0, m_idle = Some 1, m_responses = rs\<rparr>"

definition world_armed :: "pending list \<Rightarrow> world" where
  "world_armed q = \<lparr>sockets = [3 \<mapsto> \<lparr>sock_family = AF_INET, incoming = q\<rparr>], next_socket = 4,
                   buffersize = 0, monitors = [(0, 3)], idlers = [1], next_token = 2, clock = 7,
                   link_down = False, trace = [Socket AF_INET 3, LoopAdd 3 0, LoopIdle 1]\<rparr>"

text \<open>Two datagrams from 192.0.2.1, port 53.\<close>
definition dgram1 :: pending where
  "dgram1 = Datagram (Ip4 0xC0000201) 53 [1, 2]"

definition dgram2 :: pending where
  "dgram2 = Datagram (Ip4 0xC0000201) 53 [3]"

text \<open>A queued response whose address is of a family that \<open>Ip\<close> does not know.\<close>
definition bad_response :: response where
  "bad_response = \<lparr>r_now = 7, r_from = Sockaddr_other 1, r_data = [9]\<rparr>"

definition good_response :: response where
  "good_response = \<lparr>r_now = 7, r_from = Sockaddr_in 53 0xC0000201, r_data = [3]\<rparr>"

text \<open>A handler that destroys the transport it is called from.\<close>
definition destroying :: handler where
  "destroying a d n s = (Returned, Udp_destroy s)"

section \<open>Properties\<close>

subsection \<open>Auxiliary facts\<close>

declare drain.simps [simp del]

lemma emit_fields [simp]:
  "sockets (emit e w) = sockets w"
  "next_socket (emit e w) = next_socket w"
  "buffersize (emit e w) = buffersize w"
  "monitors (emit e w) = monitors w"
  "idlers (emit e w) = idlers w"
  "next_token (emit e w) = next_token w"
  "clock (emit e w) = clock w"
  "link_down (emit e w) = link_down w"
  "trace (emit e w) = trace w @ [e]"
  by (simp_all add: emit_def)

lemma idle_step:
  "m_responses u = x # rest \<Longrightarrow>
   snd (Udp_idle recording (u, w)) =
     (u\<lparr>m_responses := rest\<rparr>, w\<lparr>trace := trace w @ handed x\<rparr>)"
  by (simp add: Udp_idle_def recording_def handed_def emit_def split: sum.splits sockaddr.splits)

lemma ticks_queue:
  "k \<le> length (m_responses u) \<Longrightarrow>
   ticks k (u, w) =
     (u\<lparr>m_responses := drop k (m_responses u)\<rparr>,
      w\<lparr>trace := trace w @ concat (map handed (take k (m_responses u)))\<rparr>)"
proof (induction k arbitrary: u w)
  case 0
  then show ?case by simp
next
  case (Suc k)
  then obtain x rest where q: "m_responses u = x # rest"
    by (cases "m_responses u") auto
  with Suc.prems have "k \<le> length rest" by simp
  then show ?case
    using Suc.IH [of "u\<lparr>m_responses := rest\<rparr>" "w\<lparr>trace := trace w @ handed x\<rparr>"] q
    by (simp add: idle_step)
qed

lemma taken_Cons:
  "0 < n \<Longrightarrow> taken n (p # q) = (if positive p then p # taken (n - 1) q else [])"
  by (cases n) (simp_all add: taken_def)

lemma consumed_Cons:
  "0 < n \<Longrightarrow> consumed n (p # q) = (if positive p then Suc (consumed (n - 1) q) else 1)"
  by (cases n) (auto simp: consumed_def taken_def)

lemma drain_queue:
  "m < 1024 \<Longrightarrow> sockets w (m_fd u) = Some s \<Longrightarrow>
     fst (drain m now (u, w)) =
       u\<lparr>m_responses := m_responses u @ concat (map (capture now) (taken (1024 - m) (incoming s)))\<rparr>
   \<and> sockets (snd (drain m now (u, w))) =
       (sockets w)(m_fd u \<mapsto> s\<lparr>incoming := drop (consumed (1024 - m) (incoming s)) (incoming s)\<rparr>)"
proof (induction m now "(u, w)" arbitrary: u w s rule: drain.induct)
  case (1 m now u w)
  show ?case
  proof (cases "incoming s")
    case Nil
    with "1.prems" show ?thesis
      by (subst drain.simps, subst drain.simps)
         (simp add: sys_recvfrom_def taken_def consumed_def fun_upd_idem)
  next
    case (Cons p rest)
    show ?thesis
    proof (cases p)
      case Socket_error
      with Cons "1.prems" show ?thesis
        by (subst drain.simps, subst drain.simps)
           (simp add: sys_recvfrom_def taken_Cons consumed_Cons)
    next
      case (Datagram src port payload)
      show ?thesis
      proof (cases "payload = []")
        case True
        with Datagram Cons "1.prems" show ?thesis
          by (subst drain.simps, subst drain.simps)
           (simp add: sys_recvfrom_def taken_Cons consumed_Cons)
      next
        case False
        define nb where "nb = int (length (take 65536 payload))"
        let ?r = "Response now (sockaddr_of src port) (take 65536 payload) nb"
        let ?u1 = "u\<lparr>m_responses := m_responses u @ [?r]\<rparr>"
        let ?s1 = "s\<lparr>incoming := rest\<rparr>"
        let ?w1 = "emit (RecvFrom (m_fd u) nb) (w\<lparr>sockets := (sockets w)(m_fd u \<mapsto> ?s1)\<rparr>)"
        have rv: "sys_recvfrom (m_fd u) w = (nb, sockaddr_of src port, take 65536 payload, ?w1)"
          using "1.prems" Cons Datagram unfolding nb_def by (simp add: sys_recvfrom_def)
        have pos: "\<not> nb \<le> 0"
          using False by (simp add: nb_def min_def)
        have cap: "capture now p = [?r]"
          using Datagram by (simp add: Response_def nb_def min_def)
        show ?thesis
        proof (cases "Suc m < 1024")
          case True
          have step: "drain m now (u, w) = drain (Suc m) now (?u1, ?w1)"
            using pos True by (subst drain.simps) (simp add: rv Let_def)
          have sk: "sockets ?w1 (m_fd ?u1) = Some ?s1" by simp
          have ih: "fst (drain (Suc m) now (?u1, ?w1)) =
                      ?u1\<lparr>m_responses := m_responses ?u1 @ concat (map (capture now) (taken (1024 - Suc m) (incoming ?s1)))\<rparr>
                  \<and> sockets (snd (drain (Suc m) now (?u1, ?w1))) =
                      (sockets ?w1)(m_fd ?u1 \<mapsto> ?s1\<lparr>incoming := drop (consumed (1024 - Suc m) (incoming ?s1)) (incoming ?s1)\<rparr>)"
            using "1.hyps" [OF rv [symmetric] refl refl pos refl True True sk] .
          show ?thesis
            using ih "1.prems"(1) Cons Datagram False cap
            by (simp add: step taken_Cons consumed_Cons)
        next
          case F: False
          with "1.prems"(1) have m: "m = 1023" by simp
          have step: "drain m now (u, w) = (?u1, ?w1)"
            using pos F by (subst drain.simps) (simp add: rv Let_def)
          show ?thesis
            unfolding step using Cons Datagram False cap m
            by (simp add: taken_def consumed_def)
        qed
      qed
    qed
  qed
qed

lemma recvfrom_frame:
  "sys_recvfrom d w = (n, a, b, w1) \<Longrightarrow>
     trace w1 = trace w @ [RecvFrom d n] \<and> next_socket w1 = next_socket w \<and>
     buffersize w1 = buffersize w \<and> monitors w1 = monitors w \<and> idlers w1 = idlers w \<and>
     next_token w1 = next_token w \<and> clock w1 = clock w \<and> link_down w1 = link_down w"
  by (auto simp: sys_recvfrom_def split: option.splits list.splits pending.splits)

lemma drain_frame:
  "m < 1024 \<Longrightarrow>
     (\<exists>ns. trace (snd (drain m now (u, w))) = trace w @ map (RecvFrom (m_fd u)) ns \<and>
           length ns \<le> 1024 - m) \<and>
     next_socket (snd (drain m now (u, w))) = next_socket w \<and>
     buffersize (snd (drain m now (u, w))) = buffersize w \<and>
     monitors (snd (drain m now (u, w))) = monitors w \<and>
     idlers (snd (drain m now (u, w))) = idlers w \<and>
     next_token (snd (drain m now (u, w))) = next_token w \<and>
     clock (snd (drain m now (u, w))) = clock w \<and>
     link_down (snd (drain m now (u, w))) = link_down w"
proof (induction m now "(u, w)" arbitrary: u w rule: drain.induct)
  case (1 m now u w)
  obtain n a b w1 where rv: "sys_recvfrom (m_fd u) w = (n, a, b, w1)"
    by (cases "sys_recvfrom (m_fd u) w") auto
  note fr = recvfrom_frame [OF rv]
  show ?case
  proof (cases "n \<le> 0")
    case True
    then have "drain m now (u, w) = (u, w1)"
      by (subst drain.simps) (simp add: rv)
    moreover have "trace w1 = trace w @ map (RecvFrom (m_fd u)) [n]" using fr by simp
    ultimately show ?thesis using fr "1.prems"
      by (metis (no_types, lifting) One_nat_def Suc_leI length_Cons list.size(3) snd_conv zero_less_diff)
  next
    case False
    let ?u1 = "u\<lparr>m_responses := m_responses u @ [Response now a b n]\<rparr>"
    show ?thesis
    proof (cases "Suc m < 1024")
      case True
      have step: "drain m now (u, w) = drain (Suc m) now (?u1, w1)"
        using False True by (subst drain.simps) (simp add: rv Let_def)
      note ih = "1.hyps" [OF rv [symmetric] refl refl False refl True True]
      from ih obtain ns where ns:
        "trace (snd (drain (Suc m) now (?u1, w1))) = trace w1 @ map (RecvFrom (m_fd ?u1)) ns"
        "length ns \<le> 1024 - Suc m" by blast
      have "trace (snd (drain m now (u, w))) = trace w @ map (RecvFrom (m_fd u)) (n # ns)"
        using ns fr by (simp add: step)
      moreover have "length (n # ns) \<le> 1024 - m" using ns(2) True by simp
      ultimately have "\<exists>ns. trace (snd (drain m now (u, w))) = trace w @ map (RecvFrom (m_fd u)) ns \<and>
           length ns \<le> 1024 - m" by blast
      then show ?thesis using ih fr by (simp add: step)
    next
      case F: False
      have step: "drain m now (u, w) = (?u1, w1)"
        using False F by (subst drain.simps) (simp add: rv Let_def)
      have "trace w1 = trace w @ map (RecvFrom (m_fd u)) [n]" using fr by simp
      moreover have "length [n] \<le> 1024 - m" using "1.prems" by simp
      ultimately have "\<exists>ns. trace (snd (drain m now (u, w))) = trace w @ map (RecvFrom (m_fd u)) ns \<and>
           length ns \<le> 1024 - m" unfolding step snd_conv by blast
      then show ?thesis using fr by (simp add: step)
    qed
  qed
qed

lemma open_world0: "Udp_open 4 (Udp, world0) = (True, udp3, world3 [])"
  by (simp add: Udp_open_def Udp_def world0_def udp3_def world3_def sys_socket_def
        loop_add_def emit_def)

lemma drain_nosock:
  "sockets w (m_fd u) = None \<Longrightarrow> drain m now (u, w) = (u, emit (RecvFrom (m_fd u) (- 1)) w)"
  by (subst drain.simps) (simp add: sys_recvfrom_def)

lemma taken_Nil [simp]: "taken n [] = []"
  by (simp add: taken_def)

lemma consumed_Nil [simp]: "consumed n [] = 0"
  by (simp add: consumed_def)

lemma length_taken: "length (taken n q) \<le> n"
  unfolding taken_def
  by (rule order_trans [OF length_takeWhile_le]) simp

lemma consumed_le: "consumed n q \<le> n"
  using length_taken [of n q] by (simp add: consumed_def)

lemma taken_le_consumed: "length (taken n q) \<le> consumed n q"
  by (simp add: consumed_def)

lemma taken_prefix: "taken n q = take (length (taken n q)) q"
proof -
  have "taken n q = take (length (taken n q)) (take n q)"
    unfolding taken_def by (rule takeWhile_eq_take)
  also have "\<dots> = take (length (taken n q)) q"
    using length_taken [of n q] by (simp add: min_def)
  finally show ?thesis .
qed

lemma taken_positive: "p \<in> set (taken n q) \<Longrightarrow> positive p"
  unfolding taken_def by (rule set_takeWhileD [THEN conjunct2])

lemma taken_all:
  "n \<le> length q \<Longrightarrow> \<forall>p \<in> set (take n q). positive p \<Longrightarrow> taken n q = take n q"
  by (simp add: taken_def)

lemma consumed_all:
  "n \<le> length q \<Longrightarrow> \<forall>p \<in> set (take n q). positive p \<Longrightarrow> consumed n q = n"
  by (simp add: consumed_def taken_all)

lemma length_capture: "positive p \<Longrightarrow> length (capture now p) = 1"
  by (cases p) simp_all

lemma length_captures:
  "\<forall>p \<in> set ds. positive p \<Longrightarrow> length (concat (map (capture now) ds)) = length ds"
  by (induction ds) (simp_all add: length_capture)

lemma handed_capture: "concat (map handed (capture now p)) = arrival p"
proof (cases p)
  case (Datagram src port payload)
  then show ?thesis by (cases src) (simp_all add: handed_def r_size_def)
next
  case Socket_error
  then show ?thesis by simp
qed

lemma handed_captures:
  "concat (map handed (concat (map (capture now) ds))) = concat (map arrival ds)"
  by (induction ds) (simp_all add: handed_capture)

lemma length_arrival: "positive p \<Longrightarrow> length (arrival p) = 1"
  by (cases p) simp_all

lemma length_arrivals:
  "\<forall>p \<in> set ds. positive p \<Longrightarrow> length (concat (map arrival ds)) = length ds"
  by (induction ds) (simp_all add: length_arrival)

text \<open>The drain of \<open>notify\<close>, summed up.\<close>
lemma drain_summary:
  "fst (drain 0 now (u, w)) =
     u\<lparr>m_responses := m_responses u @ concat (map (capture now) (taken 1024 (pending_of w (m_fd u))))\<rparr>"
  "pending_of (snd (drain 0 now (u, w))) (m_fd u) =
     drop (consumed 1024 (pending_of w (m_fd u))) (pending_of w (m_fd u))"
  "map_option sock_family (sockets (snd (drain 0 now (u, w))) d) = map_option sock_family (sockets w d)"
proof -
  show "fst (drain 0 now (u, w)) =
     u\<lparr>m_responses := m_responses u @ concat (map (capture now) (taken 1024 (pending_of w (m_fd u))))\<rparr>"
  proof (cases "sockets w (m_fd u)")
    case None
    then show ?thesis by (simp add: drain_nosock pending_of_def)
  next
    case (Some s)
    then show ?thesis using drain_queue [of 0 w u s now] by (simp add: pending_of_def)
  qed
  show "pending_of (snd (drain 0 now (u, w))) (m_fd u) =
     drop (consumed 1024 (pending_of w (m_fd u))) (pending_of w (m_fd u))"
  proof (cases "sockets w (m_fd u)")
    case None
    then show ?thesis by (simp add: drain_nosock pending_of_def)
  next
    case (Some s)
    then show ?thesis using drain_queue [of 0 w u s now] by (simp add: pending_of_def)
  qed
  show "map_option sock_family (sockets (snd (drain 0 now (u, w))) d) = map_option sock_family (sockets w d)"
  proof (cases "sockets w (m_fd u)")
    case None
    then show ?thesis by (simp add: drain_nosock)
  next
    case (Some s)
    then show ?thesis using drain_queue [of 0 w u s now] by simp
  qed
qed

lemma drain_world:
  "\<exists>ns. trace (snd (drain 0 now (u, w))) = trace w @ map (RecvFrom (m_fd u)) ns \<and> length ns \<le> 1024"
  "next_socket (snd (drain 0 now (u, w))) = next_socket w"
  "buffersize (snd (drain 0 now (u, w))) = buffersize w"
  "monitors (snd (drain 0 now (u, w))) = monitors w"
  "idlers (snd (drain 0 now (u, w))) = idlers w"
  "next_token (snd (drain 0 now (u, w))) = next_token w"
  "clock (snd (drain 0 now (u, w))) = clock w"
  "link_down (snd (drain 0 now (u, w))) = link_down w"
  using drain_frame [of 0 now u w] by simp_all

lemma received_drain: "received (snd (drain 0 now (u, w))) = received w"
proof -
  obtain ns where "trace (snd (drain 0 now (u, w))) = trace w @ map (RecvFrom (m_fd u)) ns"
    using drain_world(1) [of now u w] by blast
  then show ?thesis by (simp add: received_def filter_map comp_def)
qed

text \<open>\<open>notify\<close> on an open socket, in terms of its drain.\<close>
lemma notify_open:
  "0 \<le> m_fd u \<Longrightarrow>
   Udp_notify (u, w) =
     (if m_idle u \<noteq> None then drain 0 (clock w) (u, w)
      else ((fst (drain 0 (clock w) (u, w)))\<lparr>m_idle := Some (next_token w)\<rparr>,
            emit (LoopIdle (next_token w))
              ((snd (drain 0 (clock w) (u, w)))
                 \<lparr>idlers := idlers w @ [next_token w], next_token := Suc (next_token w)\<rparr>)))"
proof -
  assume op: "0 \<le> m_fd u"
  obtain u1 w1 where d: "drain 0 (clock w) (u, w) = (u1, w1)"
    by (cases "drain 0 (clock w) (u, w)") auto
  have "m_idle u1 = m_idle u"
    using drain_summary(1) [of "clock w" u w] by (simp add: d)
  moreover have "idlers w1 = idlers w" "next_token w1 = next_token w"
    using drain_world(5,6) [of "clock w" u w] by (simp_all add: d)
  ultimately show ?thesis
    using op by (simp add: Udp_notify_def loop_idle_def d)
qed

lemma pending_of_frame [simp]:
  "pending_of (emit e w) d = pending_of w d"
  "pending_of (w\<lparr>idlers := i\<rparr>) d = pending_of w d"
  "pending_of (w\<lparr>next_token := t\<rparr>) d = pending_of w d"
  "pending_of (w\<lparr>trace := tr\<rparr>) d = pending_of w d"
  by (simp_all add: pending_of_def)

lemma received_frame [simp]:
  "received (w\<lparr>idlers := i\<rparr>) = received w"
  "received (w\<lparr>next_token := t\<rparr>) = received w"
  "received (emit (LoopIdle t) w) = received w"
  "received (emit (LoopCancel c) w) = received w"
  "received (w\<lparr>trace := trace w @ es\<rparr>) = received w @ filter is_OnReceived es"
  by (simp_all add: received_def)

lemma notify_members:
  assumes "0 \<le> m_fd u"
  shows "m_responses (fst (Udp_notify (u, w))) =
           m_responses u @ concat (map (capture (clock w)) (taken 1024 (pending_of w (m_fd u))))"
    and "m_fd (fst (Udp_notify (u, w))) = m_fd u"
    and "m_identifier (fst (Udp_notify (u, w))) = m_identifier u"
    and "m_idle (fst (Udp_notify (u, w))) = (if m_idle u = None then Some (next_token w) else m_idle u)"
  using assms by (simp_all add: notify_open drain_summary(1))

lemma notify_world:
  assumes "0 \<le> m_fd u"
  shows "pending_of (snd (Udp_notify (u, w))) (m_fd u) =
           drop (consumed 1024 (pending_of w (m_fd u))) (pending_of w (m_fd u))"
    and "received (snd (Udp_notify (u, w))) = received w"
    and "idlers (snd (Udp_notify (u, w))) = (if m_idle u = None then idlers w @ [next_token w] else idlers w)"
    and "map_option sock_family (sockets (snd (Udp_notify (u, w))) d) = map_option sock_family (sockets w d)"
    and "\<exists>ns. length ns \<le> 1024 \<and>
           trace (snd (Udp_notify (u, w))) =
             trace w @ map (RecvFrom (m_fd u)) ns @ (if m_idle u = None then [LoopIdle (next_token w)] else [])"
  using assms drain_world(1) [of "clock w" u w]
  by (auto simp: notify_open drain_summary received_drain drain_world(5))

lemma filter_handed [simp]: "filter is_OnReceived (concat (map handed rs)) = concat (map handed rs)"
  by (induction rs) (auto simp: handed_def split: sum.splits)

lemma filter_arrival [simp]:
  "filter is_OnReceived (concat (map arrival ds)) = concat (map arrival ds)"
proof (induction ds)
  case Nil
  then show ?case by simp
next
  case (Cons p ds)
  then show ?case by (cases p) simp_all
qed

lemma ticks_Suc: "ticks (Suc n) s = snd (Udp_idle recording (ticks n s))"
  by (induction n arbitrary: s) simp_all

lemma idle_empty: "m_responses u = [] \<Longrightarrow> Udp_idle h (u, w) = (Returned, Udp_stop (u, w))"
  by (simp add: Udp_idle_def)

lemma ticks_stop:
  "ticks (Suc (length (m_responses u))) (u, w) = Udp_stop (ticks (length (m_responses u)) (u, w))"
  by (simp only: ticks_Suc) (simp add: ticks_queue idle_empty)

lemma stop_members:
  "m_idle (fst (Udp_stop s)) = None"
  "m_responses (fst (Udp_stop s)) = m_responses (fst s)"
  "m_fd (fst (Udp_stop s)) = m_fd (fst s)"
  "m_identifier (fst (Udp_stop s)) = m_identifier (fst s)"
  "received (snd (Udp_stop s)) = received (snd s)"
  "idlers (snd (Udp_stop s)) = filter (\<lambda>t. Some t \<noteq> m_idle (fst s)) (idlers (snd s))"
  by (cases s; simp add: Udp_stop_def loop_cancel_def; fail)+

lemma taken_two: "taken 1024 [dgram1, dgram2] = [dgram1, dgram2]"
  by (simp add: taken_def dgram1_def dgram2_def)

lemma r_ip_Inl: "r_ip x = Inl e \<Longrightarrow> e = Runtime_error"
  by (auto split: sockaddr.splits)

lemma ticks_members:
  "k \<le> length (m_responses u) \<Longrightarrow>
     m_idle (fst (ticks k (u, w))) = m_idle u \<and>
     m_fd (fst (ticks k (u, w))) = m_fd u \<and>
     m_identifier (fst (ticks k (u, w))) = m_identifier u \<and>
     m_responses (fst (ticks k (u, w))) = drop k (m_responses u) \<and>
     idlers (snd (ticks k (u, w))) = idlers w \<and>
     received (snd (ticks k (u, w))) = received w @ concat (map handed (take k (m_responses u)))"
  by (simp add: ticks_queue)

lemma handed_mem:
  "r \<in> set rs \<Longrightarrow> r_ip r = Inr a \<Longrightarrow> OnReceived a (r_data r) (r_size r) \<in> set (concat (map handed rs))"
  by (auto simp: handed_def intro!: bexI [of _ r])

lemma consistent_emit [simp]: "consistent (u, emit e w) = consistent (u, w)"
  by (simp add: consistent_def)

lemma notify_any:
  "m_fd (fst (Udp_notify (u, w))) = m_fd u"
  "m_identifier (fst (Udp_notify (u, w))) = m_identifier u"
  "m_idle (fst (Udp_notify (u, w))) =
     (if 0 \<le> m_fd u \<and> m_idle u = None then Some (next_token w) else m_idle u)"
  "idlers (snd (Udp_notify (u, w))) =
     (if 0 \<le> m_fd u \<and> m_idle u = None then idlers w @ [next_token w] else idlers w)"
  "monitors (snd (Udp_notify (u, w))) = monitors w"
  "map_option sock_family (sockets (snd (Udp_notify (u, w))) d) = map_option sock_family (sockets w d)"
  "m_responses u \<noteq> [] \<Longrightarrow> m_responses (fst (Udp_notify (u, w))) \<noteq> []"
  "m_fd u < 0 \<Longrightarrow> m_responses (fst (Udp_notify (u, w))) = m_responses u"
proof -
  show "m_fd (fst (Udp_notify (u, w))) = m_fd u"
    by (cases "0 \<le> m_fd u") (simp add: notify_members, simp add: Udp_notify_def)
  show "m_identifier (fst (Udp_notify (u, w))) = m_identifier u"
    by (cases "0 \<le> m_fd u") (simp add: notify_members, simp add: Udp_notify_def)
  show "m_idle (fst (Udp_notify (u, w))) =
     (if 0 \<le> m_fd u \<and> m_idle u = None then Some (next_token w) else m_idle u)"
    by (cases "0 \<le> m_fd u") (simp add: notify_members, simp add: Udp_notify_def)
  show "idlers (snd (Udp_notify (u, w))) =
     (if 0 \<le> m_fd u \<and> m_idle u = None then idlers w @ [next_token w] else idlers w)"
    by (cases "0 \<le> m_fd u") (simp add: notify_world, simp add: Udp_notify_def)
  show "monitors (snd (Udp_notify (u, w))) = monitors w"
    by (cases "0 \<le> m_fd u") (simp add: notify_open drain_world, simp add: Udp_notify_def)
  show "map_option sock_family (sockets (snd (Udp_notify (u, w))) d) = map_option sock_family (sockets w d)"
    by (cases "0 \<le> m_fd u") (simp add: notify_world, simp add: Udp_notify_def)
  show "m_responses u \<noteq> [] \<Longrightarrow> m_responses (fst (Udp_notify (u, w))) \<noteq> []"
    by (cases "0 \<le> m_fd u") (simp add: notify_members, simp add: Udp_notify_def)
  show "m_fd u < 0 \<Longrightarrow> m_responses (fst (Udp_notify (u, w))) = m_responses u"
    by (simp add: Udp_notify_def)
qed

lemma consistent_notify: "consistent s \<Longrightarrow> consistent (Udp_notify s)"
proof -
  assume c: "consistent s"
  obtain u w where s: "s = (u, w)" by (cases s)
  show ?thesis
  proof (cases "m_responses (fst (Udp_notify (u, w))) = []")
    case True
    then show ?thesis
      using c unfolding s consistent_def by (auto simp: notify_any(1-4))
  next
    case False
    have "m_idle (fst (Udp_notify (u, w))) \<noteq> None"
    proof (cases "0 \<le> m_fd u")
      case True
      then show ?thesis by (simp add: notify_any(3))
    next
      case F: False
      then have "m_responses u \<noteq> []" using False by (simp add: notify_any(8))
      with c F show ?thesis unfolding s consistent_def by (simp add: notify_any(3))
    qed
    then show ?thesis
      using c unfolding s consistent_def by (auto simp: notify_any(1-4))
  qed
qed

lemma open_effect:
  "m_idle (fst (snd (Udp_open ver (u, w)))) = m_idle u"
  "m_responses (fst (snd (Udp_open ver (u, w)))) = m_responses u"
  "idlers (snd (snd (Udp_open ver (u, w)))) = idlers w"
  by (simp_all add: Udp_open_def sys_socket_def Udp_setintopt_def sys_setsockopt_def loop_add_def
        Let_def split: prod.splits)

lemma open_fd:
  "0 \<le> m_fd u \<Longrightarrow> Udp_open ver (u, w) = (True, u, w)"
  "m_fd u < 0 \<Longrightarrow> next_socket w < 0 \<Longrightarrow>
     Udp_open ver (u, w) =
       (False, u\<lparr>m_fd := - 1\<rparr>, emit (Socket (if ver = 6 then AF_INET6 else AF_INET) (- 1)) w)"
  "m_fd u < 0 \<Longrightarrow> 0 \<le> next_socket w \<Longrightarrow>
     fst (Udp_open ver (u, w)) \<and>
     m_fd (fst (snd (Udp_open ver (u, w)))) = next_socket w \<and>
     m_identifier (fst (snd (Udp_open ver (u, w)))) = Some (next_token w) \<and>
     monitors (snd (snd (Udp_open ver (u, w)))) = monitors w @ [(next_token w, next_socket w)] \<and>
     map_option sock_family (sockets (snd (snd (Udp_open ver (u, w)))) (next_socket w)) =
       Some (if ver = 6 then AF_INET6 else AF_INET)"
  by (simp_all add: Udp_open_def sys_socket_def Udp_setintopt_def sys_setsockopt_def loop_add_def
        Let_def split: prod.splits)

lemma consistent_open: "consistent s \<Longrightarrow> consistent (snd (Udp_open ver s))"
proof -
  assume c: "consistent s"
  obtain u w where s: "s = (u, w)" by (cases s)
  consider "0 \<le> m_fd u" | "m_fd u < 0" "next_socket w < 0" | "m_fd u < 0" "0 \<le> next_socket w"
    by linarith
  then show ?thesis
  proof cases
    case 1
    then show ?thesis using c by (simp add: s open_fd(1))
  next
    case 2
    then show ?thesis using c by (simp add: s open_fd(2)) (auto simp: consistent_def)
  next
    case 3
    then show ?thesis
      using c open_fd(3) [OF 3, of ver] open_effect [of ver u w]
      unfolding s consistent_def by simp
  qed
qed

lemma consistent_close: "consistent s \<Longrightarrow> consistent (snd (Udp_close s))"
  by (cases s) (auto simp: consistent_def Udp_close_def sys_close_def loop_remove_def)


lemma readable_world:
  "snd (Udp_readable (u, w)) = w \<or> snd (Udp_readable (u, w)) = emit (Poll (m_fd u)) w"
  by (simp add: Udp_readable_def sys_poll_def)

lemma consistent_readable: "consistent s \<Longrightarrow> consistent (fst s, snd (Udp_readable s))"
  by (cases s) (use readable_world in \<open>auto simp: consistent_def Udp_readable_def sys_poll_def\<close>)

lemma consistent_idle: "consistent s \<Longrightarrow> consistent (snd (Udp_idle recording s))"
proof -
  assume c: "consistent s"
  obtain u w where s: "s = (u, w)" by (cases s)
  show ?thesis
  proof (cases "m_responses u")
    case Nil
    then show ?thesis
      using c unfolding s
      by (auto simp: idle_empty consistent_def Udp_stop_def loop_cancel_def)
  next
    case (Cons x rest)
    then show ?thesis
      using c unfolding s by (auto simp: idle_step consistent_def)
  qed
qed


text \<open>What \<open>send\<close> to a socket address does: a poll, perhaps a \<open>notify\<close>, and the \<open>sendto\<close>.\<close>
lemma send_to_shape:
  "\<exists>w1 s2 n. (w1 = w \<or> w1 = emit (Poll (m_fd u)) w) \<and>
             (s2 = (u, w1) \<or> s2 = Udp_notify (u, w1)) \<and>
             snd (Udp_send_to address q (u, w)) = (fst s2, emit (SendTo (m_fd (fst s2)) q address n) (snd s2))"
proof -
  obtain r w1 where rd: "Udp_readable (u, w) = (r, w1)"
    by (cases "Udp_readable (u, w)") auto
  have w1: "w1 = w \<or> w1 = emit (Poll (m_fd u)) w"
    using readable_world [of u w] by (simp add: rd)
  obtain u2 w2 where s2: "(if r then Udp_notify (u, w1) else (u, w1)) = (u2, w2)"
    by (cases "if r then Udp_notify (u, w1) else (u, w1)") auto
  have c: "(u2, w2) = (u, w1) \<or> (u2, w2) = Udp_notify (u, w1)"
    using s2 by (cases r) simp_all
  obtain n w3 where st: "sys_sendto (m_fd u2) q address w2 = (n, w3)"
    by (cases "sys_sendto (m_fd u2) q address w2") auto
  have "\<exists>m. w3 = emit (SendTo (m_fd u2) q address m) w2"
    using st by (auto simp: sys_sendto_def split: if_splits)
  then obtain m where w3: "w3 = emit (SendTo (m_fd u2) q address m) w2" ..
  have unf: "Udp_send_to address q (u, w) =
      (case (if r then Udp_notify (u, w1) else (u, w1)) of (u2, w2) \<Rightarrow>
         (case sys_sendto (m_fd u2) q address w2 of (n, w3) \<Rightarrow> (0 \<le> n, u2, w3)))"
    by (simp add: Udp_send_to_def rd)
  have "snd (Udp_send_to address q (u, w)) = (u2, w3)"
    unfolding unf s2 by (simp add: st)
  then show ?thesis
    using w1 c w3 by (metis fst_conv snd_conv)
qed

lemma send_to_effect:
  "m_fd (fst (snd (Udp_send_to address q (u, w)))) = m_fd u"
  "m_identifier (fst (snd (Udp_send_to address q (u, w)))) = m_identifier u"
  "monitors (snd (snd (Udp_send_to address q (u, w)))) = monitors w"
  "map_option sock_family (sockets (snd (snd (Udp_send_to address q (u, w)))) d) =
     map_option sock_family (sockets w d)"
  "m_idle u \<noteq> None \<Longrightarrow> m_idle (fst (snd (Udp_send_to address q (u, w)))) = m_idle u"
  "consistent (u, w) \<Longrightarrow> consistent (snd (Udp_send_to address q (u, w)))"
proof -
  obtain w1 s2 n where
    w1: "w1 = w \<or> w1 = emit (Poll (m_fd u)) w" and
    s2: "s2 = (u, w1) \<or> s2 = Udp_notify (u, w1)" and
    r: "snd (Udp_send_to address q (u, w)) = (fst s2, emit (SendTo (m_fd (fst s2)) q address n) (snd s2))"
    using send_to_shape [of w u address q] by blast
  show "m_fd (fst (snd (Udp_send_to address q (u, w)))) = m_fd u"
    unfolding r using s2 by (auto simp: notify_any(1))
  show "m_identifier (fst (snd (Udp_send_to address q (u, w)))) = m_identifier u"
    unfolding r using s2 by (auto simp: notify_any(2))
  show "monitors (snd (snd (Udp_send_to address q (u, w)))) = monitors w"
    unfolding r using s2 w1 by (auto simp: notify_any(5))
  show "map_option sock_family (sockets (snd (snd (Udp_send_to address q (u, w)))) d) =
     map_option sock_family (sockets w d)"
    unfolding r using s2 w1 by (auto simp: notify_any(6))
  show "m_idle u \<noteq> None \<Longrightarrow> m_idle (fst (snd (Udp_send_to address q (u, w)))) = m_idle u"
    unfolding r using s2 by (auto simp: notify_any(3))
  show "consistent (u, w) \<Longrightarrow> consistent (snd (Udp_send_to address q (u, w)))"
  proof -
    assume c: "consistent (u, w)"
    then have "consistent (u, w1)" using w1 by auto
    then have "consistent s2" using s2 consistent_notify [of "(u, w1)"] by auto
    then show ?thesis unfolding r by (cases s2) simp
  qed
qed

text \<open>\<open>send\<close> to an address is \<open>open\<close>, when there is no socket, and then the transmission.\<close>
lemma send_shape:
  "Udp_send a q (u, w) =
     (if m_fd u < 0 \<and> \<not> fst (Udp_open (version a) (u, w)) then (False, snd (Udp_open (version a) (u, w)))
      else Udp_send_to (case a of Ip4 x \<Rightarrow> Sockaddr_in 53 x | Ip6 x \<Rightarrow> Sockaddr_in6 53 0 x 0) q
             (if m_fd u < 0 then snd (Udp_open (version a) (u, w)) else (u, w)))"
  by (cases a) (simp_all add: Udp_send_def split: prod.splits)

lemma consistent_send: "consistent s \<Longrightarrow> consistent (snd (Udp_send a q s))"
proof -
  assume c: "consistent s"
  obtain u w where s: "s = (u, w)" by (cases s)
  have o: "consistent (snd (Udp_open (version a) (u, w)))"
    using c consistent_open [of s "version a"] by (simp add: s)
  obtain u1 w1 where s1: "(if m_fd u < 0 then snd (Udp_open (version a) (u, w)) else (u, w)) = (u1, w1)"
    by (cases "if m_fd u < 0 then snd (Udp_open (version a) (u, w)) else (u, w)") auto
  have "consistent (u1, w1)"
    using c o s1 unfolding s by (auto split: if_splits)
  then show ?thesis
    using o send_to_effect(6) [of u1 w1] unfolding s send_shape s1 by auto
qed


lemma consistent_exec: "consistent s \<Longrightarrow> consistent (exec c s)"
  by (cases c)
     (simp_all add: consistent_open consistent_close consistent_readable consistent_notify
        consistent_idle consistent_send)




lemma consistent_created: "idlers w = [] \<Longrightarrow> consistent (Udp, w)"
  by (simp add: consistent_def Udp_def)

lemma consistent_calls: "consistent s \<Longrightarrow> consistent (fold exec cs s)"
  by (induction cs arbitrary: s) (simp_all add: consistent_exec)









subsection \<open>Draining and dispatching\<close>

text \<open>
  Claim C1. Let a drain (\<open>notify()\<close> on an open socket, with the queue empty before)
  capture the \<open>N\<close> datagrams \<open>ds\<close> from the receive queue of the socket. Then the
  queue holds \<open>N\<close> responses; after \<open>k \<le> N\<close> invocations of \<open>idle\<close> the handler has been
  called for exactly the first \<open>k\<close> datagrams, in arrival order, one call per invocation,
  and the watcher is still armed; invocation \<open>N + 1\<close> finds the queue empty, is a call
  of \<open>stop()\<close>, and leaves the watcher disarmed (\<open>_idle\<close> is reset and the loop no
  longer holds the watcher), with no further call of the handler.
  The handler is the one that leaves the transport alone.
\<close>
theorem idle_delivers_in_order:
  assumes "0 \<le> m_fd u" and "m_responses u = []"
  shows "let ds = taken 1024 (pending_of w (m_fd u)); s1 = Udp_notify (u, w) in
           m_responses (fst s1) = concat (map (capture (clock w)) ds) \<and>
           length (m_responses (fst s1)) = length ds \<and>
           (\<forall>k \<le> length ds.
              received (snd (ticks k s1)) = received w @ concat (map arrival (take k ds)) \<and>
              length (received (snd (ticks k s1))) = length (received w) + k \<and>
              m_responses (fst (ticks k s1)) = drop k (m_responses (fst s1)) \<and>
              m_idle (fst (ticks k s1)) \<noteq> None) \<and>
           m_responses (fst (ticks (length ds) s1)) = [] \<and>
           ticks (Suc (length ds)) s1 = Udp_stop (ticks (length ds) s1) \<and>
           m_idle (fst (ticks (Suc (length ds)) s1)) = None \<and>
           idlers (snd (ticks (Suc (length ds)) s1)) =
             filter (\<lambda>t. Some t \<noteq> m_idle (fst s1)) (idlers (snd s1)) \<and>
           received (snd (ticks (Suc (length ds)) s1)) = received w @ concat (map arrival ds)"
proof -
  define ds where "ds = taken 1024 (pending_of w (m_fd u))"
  obtain u1 w1 where s1: "Udp_notify (u, w) = (u1, w1)"
    by (cases "Udp_notify (u, w)") auto
  have pos: "\<forall>p \<in> set ds. positive p"
    unfolding ds_def by (auto dest: taken_positive)
  have q: "m_responses u1 = concat (map (capture (clock w)) ds)"
    using notify_members(1) [OF assms(1), of w] assms(2) by (simp add: s1 ds_def)
  have len: "length (m_responses u1) = length ds"
    using pos by (simp add: q length_captures)
  have arm: "m_idle u1 \<noteq> None"
    using notify_members(4) [OF assms(1), of w] by (simp add: s1)
  have rec: "received w1 = received w"
    using notify_world(2) [OF assms(1), of w] by (simp add: s1)
  have run: "ticks k (u1, w1) =
               (u1\<lparr>m_responses := drop k (m_responses u1)\<rparr>,
                w1\<lparr>trace := trace w1 @ concat (map handed (take k (m_responses u1)))\<rparr>)"
    if "k \<le> length ds" for k
    using that len by (simp add: ticks_queue)
  have tk: "concat (map handed (take k (m_responses u1))) = concat (map arrival (take k ds))"
    if "k \<le> length ds" for k
  proof -
    have "\<forall>p \<in> set (take k ds). positive p"
      using pos by (auto dest: in_set_takeD)
    then have "length (concat (map (capture (clock w)) (take k ds))) = k"
      using that by (simp add: length_captures)
    moreover have "m_responses u1 =
        concat (map (capture (clock w)) (take k ds)) @ concat (map (capture (clock w)) (drop k ds))"
      unfolding q by (simp only: map_append [symmetric] concat_append [symmetric] append_take_drop_id)
    ultimately have "take k (m_responses u1) = concat (map (capture (clock w)) (take k ds))"
      by simp
    then show ?thesis by (simp add: handed_captures)
  qed
  have lk: "length (concat (map arrival (take k ds))) = k" if "k \<le> length ds" for k
  proof -
    have "\<forall>p \<in> set (take k ds). positive p"
      using pos by (auto dest: in_set_takeD)
    then show ?thesis using that by (simp add: length_arrivals)
  qed
  have mid: "\<forall>k \<le> length ds.
              received (snd (ticks k (u1, w1))) = received w @ concat (map arrival (take k ds)) \<and>
              length (received (snd (ticks k (u1, w1)))) = length (received w) + k \<and>
              m_responses (fst (ticks k (u1, w1))) = drop k (m_responses u1) \<and>
              m_idle (fst (ticks k (u1, w1))) \<noteq> None"
    using arm rec by (simp add: run tk lk)
  have last: "ticks (Suc (length ds)) (u1, w1) = Udp_stop (ticks (length ds) (u1, w1))"
    using ticks_stop [of u1 w1] by (simp add: len)
  have fin: "m_responses (fst (ticks (length ds) (u1, w1))) = []"
    using len by (simp add: run)
  have off: "m_idle (fst (ticks (Suc (length ds)) (u1, w1))) = None"
    unfolding last by (rule stop_members(1))
  have all: "received (snd (ticks (Suc (length ds)) (u1, w1))) = received w @ concat (map arrival ds)"
    unfolding last using mid by (simp add: stop_members(5))
  have gone: "idlers (snd (ticks (Suc (length ds)) (u1, w1))) =
                filter (\<lambda>t. Some t \<noteq> m_idle u1) (idlers w1)"
    unfolding last by (simp add: stop_members(6) run)
  show ?thesis
    unfolding Let_def ds_def [symmetric] s1 fst_conv snd_conv
    using q len mid fin last off gone all by blast
qed

theorem idle_delivers_in_order_witness:
  "0 \<le> m_fd udp3 \<and> m_responses udp3 = [] \<and>
   length (m_responses (fst (Udp_notify (udp3, world3 [dgram1, dgram2])))) = 2 \<and>
   received (snd (ticks 1 (Udp_notify (udp3, world3 [dgram1, dgram2])))) =
     [OnReceived (Ip4 0xC0000201) [1, 2] 2] \<and>
   received (snd (ticks 2 (Udp_notify (udp3, world3 [dgram1, dgram2])))) =
     [OnReceived (Ip4 0xC0000201) [1, 2] 2, OnReceived (Ip4 0xC0000201) [3] 1] \<and>
   m_idle (fst (ticks 2 (Udp_notify (udp3, world3 [dgram1, dgram2])))) \<noteq> None \<and>
   m_idle (fst (ticks 3 (Udp_notify (udp3, world3 [dgram1, dgram2])))) = None \<and>
   ticks 3 (Udp_notify (udp3, world3 [dgram1, dgram2])) =
     Udp_stop (ticks 2 (Udp_notify (udp3, world3 [dgram1, dgram2])))"
proof -
  let ?w = "world3 [dgram1, dgram2]"
  have h: "0 \<le> m_fd udp3" "m_responses udp3 = []"
    by (simp_all add: udp3_def)
  have ds: "taken 1024 (pending_of ?w (m_fd udp3)) = [dgram1, dgram2]"
    by (simp add: pending_of_def world3_def udp3_def taken_two)
  have r0: "received (world3 q) = []" for q
    by (simp add: received_def world3_def)
  have lds: "length [dgram1, dgram2] = 2" "Suc 2 = 3"
    by simp_all
  note t = idle_delivers_in_order [OF h, of ?w, unfolded Let_def ds lds]
  have two: "\<forall>k \<le> 2.
      received (snd (ticks k (Udp_notify (udp3, ?w)))) =
        received ?w @ concat (map arrival (take k [dgram1, dgram2])) \<and>
      length (received (snd (ticks k (Udp_notify (udp3, ?w))))) = length (received ?w) + k \<and>
      m_responses (fst (ticks k (Udp_notify (udp3, ?w)))) =
        drop k (m_responses (fst (Udp_notify (udp3, ?w)))) \<and>
      m_idle (fst (ticks k (Udp_notify (udp3, ?w)))) \<noteq> None"
    using t by blast
  have e1: "received ?w @ concat (map arrival (take 1 [dgram1, dgram2])) =
              [OnReceived (Ip4 0xC0000201) [1, 2] 2]"
    by (simp add: r0 dgram1_def)
  have e2: "received ?w @ concat (map arrival (take 2 [dgram1, dgram2])) =
              [OnReceived (Ip4 0xC0000201) [1, 2] 2, OnReceived (Ip4 0xC0000201) [3] 1]"
    by (simp add: r0 dgram1_def dgram2_def)
  have a1: "received (snd (ticks 1 (Udp_notify (udp3, ?w)))) = [OnReceived (Ip4 0xC0000201) [1, 2] 2]"
    using two [rule_format, of 1] unfolding e1 by simp
  have a2: "received (snd (ticks 2 (Udp_notify (udp3, ?w)))) =
       [OnReceived (Ip4 0xC0000201) [1, 2] 2, OnReceived (Ip4 0xC0000201) [3] 1]"
      "m_idle (fst (ticks 2 (Udp_notify (udp3, ?w)))) \<noteq> None"
    using two [rule_format, of 2] unfolding e2 by simp_all
  have a3: "m_idle (fst (ticks 3 (Udp_notify (udp3, ?w)))) = None"
    using t by blast
  have a4: "ticks 3 (Udp_notify (udp3, ?w)) = Udp_stop (ticks 2 (Udp_notify (udp3, ?w)))"
    using t by blast
  have a0: "length (m_responses (fst (Udp_notify (udp3, ?w)))) = 2"
    using t by blast
  show ?thesis using h a0 a1 a2 a3 a4 by blast
qed

text \<open>
  Claim C2. An invocation of \<open>idle\<close> with a non-empty queue, for any handler
  whatever. The first response is taken off the queue before anything else happens.
  When its address reconstructs, the handler is called on the transport with exactly
  that one response removed and nothing else changed, in the world as it was; what
  \<open>idle\<close> leaves behind is then, member for member, what the handler left behind (also
  when the handler destroyed the transport), so nothing is written after the call, and
  the result depends on nothing read after it. Only the outcome is looked at: a
  \<open>std::runtime_error\<close> of the handler is caught. When the address does not
  reconstruct there is no call of the handler at all (claim C6).
\<close>
theorem idle_handler_last:
  "m_responses u = x # rest \<Longrightarrow>
     (case r_ip x of
        Inl e \<Rightarrow> Udp_idle h (u, w) = (Returned, u\<lparr>m_responses := rest\<rparr>, w)
      | Inr a \<Rightarrow>
          snd (Udp_idle h (u, w)) = snd (h a (r_data x) (r_size x) (u\<lparr>m_responses := rest\<rparr>, w)) \<and>
          fst (Udp_idle h (u, w)) =
            (if fst (h a (r_data x) (r_size x) (u\<lparr>m_responses := rest\<rparr>, w)) = Thrown Runtime_error
             then Returned
             else fst (h a (r_data x) (r_size x) (u\<lparr>m_responses := rest\<rparr>, w))))"
proof (cases "r_ip x")
  case (Inl e)
  assume "m_responses u = x # rest"
  with Inl r_ip_Inl [OF Inl] show ?thesis
    by (simp add: Udp_idle_def)
next
  case (Inr a)
  assume q: "m_responses u = x # rest"
  obtain res s1 where hr: "h a (r_data x) (r_size x) (u\<lparr>m_responses := rest\<rparr>, w) = (res, s1)"
    by (cases "h a (r_data x) (r_size x) (u\<lparr>m_responses := rest\<rparr>, w)") auto
  show ?thesis
    using Inr q hr
    by (cases res; simp add: Udp_idle_def del: r_ip.simps split: exn.splits)
qed

theorem idle_handler_last_witness:
  "m_responses (udp_armed [good_response]) = good_response # [] \<and>
   r_ip good_response = Inr (Ip4 0xC0000201) \<and>
   Udp_idle destroying (udp_armed [good_response], world_armed []) =
     (Returned, Udp_destroy (udp_armed [], world_armed [])) \<and>
   m_fd (fst (snd (Udp_idle destroying (udp_armed [good_response], world_armed [])))) = - 1 \<and>
   m_idle (fst (snd (Udp_idle destroying (udp_armed [good_response], world_armed [])))) = None \<and>
   m_responses (udp_armed [bad_response]) = bad_response # [] \<and>
   r_ip bad_response = Inl Runtime_error \<and>
   Udp_idle destroying (udp_armed [bad_response], world_armed []) =
     (Returned, udp_armed [], world_armed [])"
proof -
  have q: "m_responses (udp_armed [good_response]) = good_response # []"
          "m_responses (udp_armed [bad_response]) = bad_response # []"
    by (simp_all add: udp_armed_def)
  have a: "r_ip good_response = Inr (Ip4 0xC0000201)" "r_ip bad_response = Inl Runtime_error"
    by (simp_all add: good_response_def bad_response_def)
  have p: "(udp_armed [good_response])\<lparr>m_responses := []\<rparr> = udp_armed []"
          "(udp_armed [bad_response])\<lparr>m_responses := []\<rparr> = udp_armed []"
    by (simp_all add: udp_armed_def)
  note t = idle_handler_last [OF q(1), of destroying "world_armed []", unfolded a sum.case p]
  note b = idle_handler_last [OF q(2), of destroying "world_armed []", unfolded a sum.case p]
  have r: "Udp_idle destroying (udp_armed [good_response], world_armed []) =
             (Returned, Udp_destroy (udp_armed [], world_armed []))"
    using t by (simp add: destroying_def prod_eq_iff)
  have d: "m_fd (fst (Udp_destroy (udp_armed [], world_armed []))) = - 1"
          "m_idle (fst (Udp_destroy (udp_armed [], world_armed []))) = None"
    by (simp_all add: Udp_destroy_def Udp_close_def Udp_stop_def udp_armed_def)
  show ?thesis using q a r d b by simp
qed

text \<open>
  Claim C4. One \<open>notify()\<close> on an open socket appends at most 1024 responses to the
  queue, in at most 1024 calls of \<open>recvfrom\<close>, whatever the kernel has pending; what it
  appends are the leading datagrams of the receive queue, and what it leaves there is
  the receive queue less at most its first 1024 items. When 1024 or more datagrams
  with a payload are pending, exactly the first 1024 are appended and all the others
  stay in the kernel for a later \<open>notify()\<close>.
\<close>
theorem notify_bounded:
  assumes "0 \<le> m_fd u"
  shows "length (m_responses (fst (Udp_notify (u, w)))) \<le> length (m_responses u) + 1024 \<and>
         m_responses (fst (Udp_notify (u, w))) =
           m_responses u @ concat (map (capture (clock w)) (taken 1024 (pending_of w (m_fd u)))) \<and>
         (\<exists>ns. length ns \<le> 1024 \<and>
            trace (snd (Udp_notify (u, w))) =
              trace w @ map (RecvFrom (m_fd u)) ns @
                (if m_idle u = None then [LoopIdle (next_token w)] else [])) \<and>
         (\<exists>j. j \<le> 1024 \<and>
            pending_of (snd (Udp_notify (u, w))) (m_fd u) = drop j (pending_of w (m_fd u))) \<and>
         (1024 \<le> length (pending_of w (m_fd u)) \<and>
          (\<forall>p \<in> set (take 1024 (pending_of w (m_fd u))). positive p) \<longrightarrow>
            m_responses (fst (Udp_notify (u, w))) =
              m_responses u @ concat (map (capture (clock w)) (take 1024 (pending_of w (m_fd u)))) \<and>
            length (m_responses (fst (Udp_notify (u, w)))) = length (m_responses u) + 1024 \<and>
            pending_of (snd (Udp_notify (u, w))) (m_fd u) = drop 1024 (pending_of w (m_fd u)))"
proof -
  let ?q = "pending_of w (m_fd u)"
  have q: "m_responses (fst (Udp_notify (u, w))) =
             m_responses u @ concat (map (capture (clock w)) (taken 1024 ?q))"
    by (rule notify_members(1) [OF assms])
  have pos: "\<forall>p \<in> set (taken 1024 ?q). positive p"
    by (auto dest: taken_positive)
  have len: "length (m_responses (fst (Udp_notify (u, w)))) = length (m_responses u) + length (taken 1024 ?q)"
    using pos by (simp add: q length_captures)
  have bound: "length (m_responses (fst (Udp_notify (u, w)))) \<le> length (m_responses u) + 1024"
    using length_taken [of 1024 ?q] by (simp add: len)
  have rest: "pending_of (snd (Udp_notify (u, w))) (m_fd u) = drop (consumed 1024 ?q) ?q"
    by (rule notify_world(1) [OF assms])
  have left: "\<exists>j. j \<le> 1024 \<and> pending_of (snd (Udp_notify (u, w))) (m_fd u) = drop j ?q"
    using rest consumed_le [of 1024 ?q] by blast
  have full: "m_responses (fst (Udp_notify (u, w))) =
                m_responses u @ concat (map (capture (clock w)) (take 1024 ?q)) \<and>
              length (m_responses (fst (Udp_notify (u, w)))) = length (m_responses u) + 1024 \<and>
              pending_of (snd (Udp_notify (u, w))) (m_fd u) = drop 1024 ?q"
    if "1024 \<le> length ?q" and "\<forall>p \<in> set (take 1024 ?q). positive p"
    using that q len rest by (simp add: taken_all consumed_all)
  show ?thesis
    using bound q notify_world(5) [OF assms, of w] left full by blast
qed

theorem notify_bounded_witness:
  "0 \<le> m_fd udp3 \<and>
   1024 \<le> length (pending_of (world3 (replicate 1030 dgram1)) (m_fd udp3)) \<and>
   list_all positive (take 1024 (pending_of (world3 (replicate 1030 dgram1)) (m_fd udp3))) \<and>
   length (m_responses (fst (Udp_notify (udp3, world3 (replicate 1030 dgram1))))) = 1024 \<and>
   pending_of (snd (Udp_notify (udp3, world3 (replicate 1030 dgram1)))) 3 = replicate 6 dgram1"
proof -
  let ?w = "world3 (replicate 1030 dgram1)"
  have h: "0 \<le> m_fd udp3" by (simp add: udp3_def)
  have p: "pending_of ?w (m_fd udp3) = replicate 1030 dgram1"
    by (simp add: pending_of_def world3_def udp3_def)
  have pos: "\<forall>p \<in> set (take 1024 (replicate 1030 dgram1)). positive p"
    by (simp add: dgram1_def)
  have e: "length (m_responses udp3) + 1024 = 1024" "m_fd udp3 = 3"
           "drop 1024 (replicate 1030 dgram1) = replicate 6 dgram1"
    by (simp_all add: udp3_def)
  have len: "1024 \<le> length (replicate 1030 dgram1)" by simp
  note t = notify_bounded [OF h, of ?w, unfolded p, THEN conjunct2, THEN conjunct2,
             THEN conjunct2, THEN conjunct2, rule_format, OF conjI [OF len pos]]
  have "length (m_responses (fst (Udp_notify (udp3, ?w)))) = 1024"
       "pending_of (snd (Udp_notify (udp3, ?w))) 3 = replicate 6 dgram1"
    using t unfolding e by blast+
  then show ?thesis using h len pos unfolding p list_all_iff by blast
qed

text \<open>
  Claim C6, as amended. When the address of the first queued response does not
  reconstruct, \<open>idle\<close> returns normally for any handler: the exception is caught and
  swallowed, and nothing is reported (the world is as before). The failed response is
  off the queue, the rest of the queue and the watcher are as before, a consistent
  state stays consistent, and the later invocations hand the remaining responses to
  the handler in order.
\<close>
theorem idle_swallows_bad_address:
  "m_responses u = x # rest \<Longrightarrow> r_ip x = Inl e \<Longrightarrow>
     Udp_idle h (u, w) = (Returned, u\<lparr>m_responses := rest\<rparr>, w) \<and>
     (consistent (u, w) \<longrightarrow> consistent (u\<lparr>m_responses := rest\<rparr>, w)) \<and>
     (\<forall>k \<le> length rest.
        received (snd (ticks (Suc k) (u, w))) = received w @ concat (map handed (take k rest)) \<and>
        m_idle (fst (ticks (Suc k) (u, w))) = m_idle u)"
proof -
  assume q: "m_responses u = x # rest" and bad: "r_ip x = Inl e"
  have e: "e = Runtime_error" using bad by (rule r_ip_Inl)
  have one: "Udp_idle h (u, w) = (Returned, u\<lparr>m_responses := rest\<rparr>, w)" for h
    using q bad e by (simp add: Udp_idle_def del: r_ip.simps)
  have inv: "consistent (u, w) \<longrightarrow> consistent (u\<lparr>m_responses := rest\<rparr>, w)"
    using q by (auto simp: consistent_def)
  have later: "received (snd (ticks (Suc k) (u, w))) = received w @ concat (map handed (take k rest)) \<and>
        m_idle (fst (ticks (Suc k) (u, w))) = m_idle u" if "k \<le> length rest" for k
    using that ticks_members [of k "u\<lparr>m_responses := rest\<rparr>" w] by (simp add: one)
  show ?thesis using one inv later by blast
qed

theorem idle_swallows_bad_address_witness:
  "m_responses (udp_armed [bad_response, good_response]) = bad_response # [good_response] \<and>
   r_ip bad_response = Inl Runtime_error \<and>
   consistent (udp_armed [bad_response, good_response], world_armed []) \<and>
   Udp_idle recording (udp_armed [bad_response, good_response], world_armed []) =
     (Returned, udp_armed [good_response], world_armed []) \<and>
   consistent (udp_armed [good_response], world_armed []) \<and>
   received (snd (ticks 2 (udp_armed [bad_response, good_response], world_armed []))) =
     [OnReceived (Ip4 0xC0000201) [3] 1]"
proof -
  let ?u = "udp_armed [bad_response, good_response]"
  let ?w = "world_armed []"
  have q: "m_responses ?u = bad_response # [good_response]"
    by (simp add: udp_armed_def)
  have bad: "r_ip bad_response = Inl Runtime_error"
    by (simp add: bad_response_def)
  have c: "consistent (?u, ?w)"
    by (simp add: consistent_def udp_armed_def world_armed_def)
  have p: "?u\<lparr>m_responses := [good_response]\<rparr> = udp_armed [good_response]"
    by (simp add: udp_armed_def)
  have e: "received ?w @ concat (map handed (take 1 [good_response])) = [OnReceived (Ip4 0xC0000201) [3] 1]"
    by (simp add: received_def world_armed_def handed_def good_response_def r_size_def)
  have n: "Suc 1 = 2" "(1::nat) \<le> length [good_response]" by simp_all
  note t = idle_swallows_bad_address [OF q bad, of recording ?w, unfolded p]
  have t1: "Udp_idle recording (?u, ?w) = (Returned, udp_armed [good_response], ?w)"
    using t by blast
  have t2: "consistent (udp_armed [good_response], ?w)"
    using t c by blast
  have t3: "received (snd (ticks 2 (?u, ?w))) = [OnReceived (Ip4 0xC0000201) [3] 1]"
    using t [THEN conjunct2, THEN conjunct2, rule_format, OF n(2), THEN conjunct1]
    unfolding e n(1) .
  show ?thesis using q bad c t1 t2 t3 by blast
qed

text \<open>
  Claim C6 as stated asks for the failure to be logged. The \<open>catch\<close> block of
  \<open>idle\<close> is empty (its comment is a todo note): with a response of an unknown family
  at the head of the queue, the world after the call, its trace included, is the world
  before it, so no record of the failure has been made.
\<close>
theorem bad_address_leaves_no_record:
  "r_ip bad_response = Inl Runtime_error \<and>
   trace (snd (snd (Udp_idle recording (udp_armed [bad_response], world_armed [])))) =
     trace (world_armed []) \<and>
   snd (snd (Udp_idle recording (udp_armed [bad_response], world_armed []))) = world_armed []"
  by (simp add: Udp_idle_def udp_armed_def bad_response_def)

subsection \<open>The watcher\<close>




subsection \<open>Sending\<close>

text \<open>
  Claim C5, as amended. \<open>send(ip, query)\<close> on a transport without a socket opens
  one for the IP version of the target: when the kernel refuses, \<open>send\<close> returns false,
  no member changes (\<open>_fd\<close> is set to the -1 that it holds in every closed state) and
  the only thing that has happened in the world is the failed \<open>socket()\<close> call, so
  nothing is registered with the event loop; when the kernel grants a descriptor, the
  transport holds it afterwards, it is of the family of the target, and it is
  registered with the loop. On a transport with an open socket \<open>send\<close> opens nothing:
  the descriptor, its family, the identifier and the registrations are as before.
\<close>
theorem send_opens_when_closed:
  "(m_fd u < 0 \<and> next_socket w < 0 \<longrightarrow>
      Udp_send a q (u, w) = (False, u\<lparr>m_fd := - 1\<rparr>, emit (Socket (family_of a) (- 1)) w)) \<and>
   (m_fd u = - 1 \<and> next_socket w < 0 \<longrightarrow>
      Udp_send a q (u, w) = (False, u, emit (Socket (family_of a) (- 1)) w)) \<and>
   (m_fd u < 0 \<and> 0 \<le> next_socket w \<longrightarrow>
      m_fd (fst (snd (Udp_send a q (u, w)))) = next_socket w \<and>
      m_identifier (fst (snd (Udp_send a q (u, w)))) = Some (next_token w) \<and>
      monitors (snd (snd (Udp_send a q (u, w)))) = monitors w @ [(next_token w, next_socket w)] \<and>
      map_option sock_family (sockets (snd (snd (Udp_send a q (u, w)))) (next_socket w)) =
        Some (family_of a)) \<and>
   (0 \<le> m_fd u \<longrightarrow>
      m_fd (fst (snd (Udp_send a q (u, w)))) = m_fd u \<and>
      m_identifier (fst (snd (Udp_send a q (u, w)))) = m_identifier u \<and>
      monitors (snd (snd (Udp_send a q (u, w)))) = monitors w \<and>
      map_option sock_family (sockets (snd (snd (Udp_send a q (u, w)))) (m_fd u)) =
        map_option sock_family (sockets w (m_fd u)))"
proof -
  have fail: "Udp_send a q (u, w) = (False, u\<lparr>m_fd := - 1\<rparr>, emit (Socket (family_of a) (- 1)) w)"
    if "m_fd u < 0" "next_socket w < 0"
    using that by (simp add: send_shape open_fd(2) family_of_def)
  have same: "u\<lparr>m_fd := - 1\<rparr> = u" if "m_fd u = - 1"
    using that by simp
  have lazy: "m_fd (fst (snd (Udp_send a q (u, w)))) = next_socket w \<and>
      m_identifier (fst (snd (Udp_send a q (u, w)))) = Some (next_token w) \<and>
      monitors (snd (snd (Udp_send a q (u, w)))) = monitors w @ [(next_token w, next_socket w)] \<and>
      map_option sock_family (sockets (snd (snd (Udp_send a q (u, w)))) (next_socket w)) =
        Some (family_of a)"
    if c: "m_fd u < 0" "0 \<le> next_socket w"
  proof -
    obtain r u1 w1 where o: "Udp_open (version a) (u, w) = (r, u1, w1)"
      by (cases "Udp_open (version a) (u, w)") auto
    have e: "r" "m_fd u1 = next_socket w" "m_identifier u1 = Some (next_token w)"
            "monitors w1 = monitors w @ [(next_token w, next_socket w)]"
            "map_option sock_family (sockets w1 (next_socket w)) = Some (family_of a)"
      using open_fd(3) [OF c, of "version a"] by (simp_all add: o family_of_def)
    show ?thesis
      using c e by (simp add: send_shape o send_to_effect)
  qed
  have reuse: "m_fd (fst (snd (Udp_send a q (u, w)))) = m_fd u \<and>
      m_identifier (fst (snd (Udp_send a q (u, w)))) = m_identifier u \<and>
      monitors (snd (snd (Udp_send a q (u, w)))) = monitors w \<and>
      map_option sock_family (sockets (snd (snd (Udp_send a q (u, w)))) (m_fd u)) =
        map_option sock_family (sockets w (m_fd u))"
    if "0 \<le> m_fd u"
    using that by (simp add: send_shape send_to_effect)
  show ?thesis
    using fail same lazy reuse by (metis (no_types, lifting) neg_less_0_iff_less zero_less_one)
qed

theorem send_opens_when_closed_witness:
  "m_fd Udp = - 1 \<and> next_socket world_full < 0 \<and>
   Udp_send (Ip6 1) [0] (Udp, world_full) = (False, Udp, emit (Socket AF_INET6 (- 1)) world_full) \<and>
   monitors (emit (Socket AF_INET6 (- 1)) world_full) = [] \<and>
   m_fd Udp < 0 \<and> 0 \<le> next_socket world0 \<and>
   m_fd (fst (snd (Udp_send (Ip6 1) [0] (Udp, world0)))) = 3 \<and>
   monitors (snd (snd (Udp_send (Ip6 1) [0] (Udp, world0)))) = [(0, 3)] \<and>
   map_option sock_family (sockets (snd (snd (Udp_send (Ip6 1) [0] (Udp, world0)))) 3) = Some AF_INET6 \<and>
   0 \<le> m_fd udp3 \<and>
   m_fd (fst (snd (Udp_send (Ip4 1) [0] (udp3, world3 [])))) = 3 \<and>
   monitors (snd (snd (Udp_send (Ip4 1) [0] (udp3, world3 [])))) = [(0, 3)] \<and>
   map_option sock_family (sockets (snd (snd (Udp_send (Ip4 1) [0] (udp3, world3 [])))) 3) = Some AF_INET"
proof -
  have h: "m_fd Udp = - 1" "next_socket world_full < 0" "m_fd Udp < 0" "0 \<le> next_socket world0"
          "0 \<le> m_fd udp3"
    by (simp_all add: Udp_def world_full_def world0_def udp3_def)
  have f: "family_of (Ip6 1) = AF_INET6" by (simp add: family_of_def)
  have v: "next_socket world0 = 3" "monitors world0 @ [(next_token world0, 3)] = [(0, 3)]"
          "monitors (emit (Socket AF_INET6 (- 1)) world_full) = []"
    by (simp_all add: world0_def world_full_def)
  have v3: "m_fd udp3 = 3" "monitors (world3 []) = [(0, 3)]"
           "map_option sock_family (sockets (world3 []) 3) = Some AF_INET"
    by (simp_all add: udp3_def world3_def)
  have three: "(0::int) \<le> 3" by simp
  note t1 = send_opens_when_closed [of Udp world_full "Ip6 1" "[0]", unfolded f]
  note t2 = send_opens_when_closed [of Udp world0 "Ip6 1" "[0]", unfolded f v]
  note t3 = send_opens_when_closed [of udp3 "world3 []" "Ip4 1" "[0]", unfolded v3]
  have a: "Udp_send (Ip6 1) [0] (Udp, world_full) = (False, Udp, emit (Socket AF_INET6 (- 1)) world_full)"
    using t1 h by blast
  have b: "m_fd (fst (snd (Udp_send (Ip6 1) [0] (Udp, world0)))) = 3"
          "monitors (snd (snd (Udp_send (Ip6 1) [0] (Udp, world0)))) = [(0, 3)]"
          "map_option sock_family (sockets (snd (snd (Udp_send (Ip6 1) [0] (Udp, world0)))) 3) = Some AF_INET6"
    using t2 h three by blast+
  have c: "m_fd (fst (snd (Udp_send (Ip4 1) [0] (udp3, world3 [])))) = 3"
          "monitors (snd (snd (Udp_send (Ip4 1) [0] (udp3, world3 [])))) = [(0, 3)]"
          "map_option sock_family (sockets (snd (snd (Udp_send (Ip4 1) [0] (udp3, world3 [])))) 3) = Some AF_INET"
    using t3 three by blast+
  show ?thesis using h a b c v(3) by blast
qed

text \<open>
  Claim C5 as stated has every \<open>send\<close> end with a socket of the target's IP
  version. \<open>send\<close> looks at the version only when it has to open a socket: on the
  transport opened for version 4, a \<open>send\<close> to a version 6 address is attempted, with
  a \<open>sockaddr_in6\<close>, on the same AF_INET socket, which the kernel refuses.
\<close>
theorem send_reuses_socket_of_other_version:
  "version (Ip6 1) = 6 \<and>
   map_option sock_family (sockets (world3 []) (m_fd udp3)) = Some AF_INET \<and>
   m_fd (fst (snd (Udp_send (Ip6 1) [0] (udp3, world3 [])))) = m_fd udp3 \<and>
   map_option sock_family
     (sockets (snd (snd (Udp_send (Ip6 1) [0] (udp3, world3 []))))
        (m_fd (fst (snd (Udp_send (Ip6 1) [0] (udp3, world3 [])))))) = Some AF_INET \<and>
   trace (snd (snd (Udp_send (Ip6 1) [0] (udp3, world3 [])))) =
     trace (world3 []) @ [Poll 3, SendTo 3 [0] (Sockaddr_in6 53 0 1 0) (- 1)] \<and>
   \<not> fst (Udp_send (Ip6 1) [0] (udp3, world3 []))"
  by (simp add: Udp_send_def Udp_send_to_def Udp_readable_def sys_poll_def sys_sendto_def
        udp3_def world3_def)

subsection \<open>Closing\<close>

text \<open>
  Claim C7. Two calls of \<open>close()\<close> in a row on an open transport: the first returns
  true and unregisters from the event loop exactly once (the trace grows by one
  \<open>Loop::remove\<close> and the \<open>::close\<close> of the descriptor); the second returns false,
  and neither the transport nor the world changes, so nothing is unregistered again.
\<close>
theorem close_twice:
  "0 \<le> m_fd u \<Longrightarrow>
     (case Udp_close (u, w) of (r1, u1, w1) \<Rightarrow>
        r1 \<and>
        trace w1 = trace w @ [LoopRemove (m_identifier u) (m_fd u), CloseFd (m_fd u)] \<and>
        length (filter is_LoopRemove (trace w1)) = Suc (length (filter is_LoopRemove (trace w))) \<and>
        Udp_close (u1, w1) = (False, u1, w1))"
  by (simp add: Udp_close_def sys_close_def loop_remove_def)

theorem close_twice_witness:
  "0 \<le> m_fd udp3 \<and>
   fst (Udp_close (udp3, world3 [])) \<and>
   trace (snd (snd (Udp_close (udp3, world3 [])))) =
     [Socket AF_INET 3, LoopAdd 3 0, LoopRemove (Some 0) 3, CloseFd 3] \<and>
   Udp_close (snd (Udp_close (udp3, world3 []))) = (False, snd (Udp_close (udp3, world3 [])))"
  using close_twice [of udp3 "world3 []"]
  by (simp add: udp3_def world3_def split: prod.splits)

text \<open>
  Claim C8. \<open>close()\<close> changes no member but \<open>_fd\<close> and \<open>_identifier\<close>: the queue and
  \<open>_idle\<close> are as before, and so are the idle watchers of the loop and the calls of the
  handler so far. The invocations of \<open>idle\<close> after the \<open>close()\<close> therefore hand the
  queued responses to the handler, one per invocation and in order, with the watcher
  still armed; every response that was in the queue with an address that reconstructs
  has been handed over once as many invocations as there were responses have run.
\<close>
theorem close_keeps_queue:
  "(case Udp_close (u, w) of (r, u1, w1) \<Rightarrow>
      u1 = u\<lparr>m_fd := m_fd u1, m_identifier := m_identifier u1\<rparr> \<and>
      m_responses u1 = m_responses u \<and> m_idle u1 = m_idle u \<and>
      idlers w1 = idlers w \<and> received w1 = received w \<and>
      (\<forall>k \<le> length (m_responses u).
         received (snd (ticks k (u1, w1))) = received w @ concat (map handed (take k (m_responses u))) \<and>
         m_responses (fst (ticks k (u1, w1))) = drop k (m_responses u) \<and>
         m_idle (fst (ticks k (u1, w1))) = m_idle u) \<and>
      (\<forall>x \<in> set (m_responses u). \<forall>a. r_ip x = Inr a \<longrightarrow>
         OnReceived a (r_data x) (r_size x)
           \<in> set (received (snd (ticks (length (m_responses u)) (u1, w1))))))"
proof -
  obtain r u1 w1 where c: "Udp_close (u, w) = (r, u1, w1)"
    by (cases "Udp_close (u, w)") auto
  have m: "u1 = u\<lparr>m_fd := m_fd u1, m_identifier := m_identifier u1\<rparr>"
          "m_responses u1 = m_responses u" "m_idle u1 = m_idle u"
          "idlers w1 = idlers w" "received w1 = received w"
    using c by (auto simp: Udp_close_def sys_close_def loop_remove_def received_def emit_def
                  split: if_splits)
  have run: "received (snd (ticks k (u1, w1))) = received w @ concat (map handed (take k (m_responses u))) \<and>
         m_responses (fst (ticks k (u1, w1))) = drop k (m_responses u) \<and>
         m_idle (fst (ticks k (u1, w1))) = m_idle u" if "k \<le> length (m_responses u)" for k
    using that ticks_members [of k u1 w1] m by simp
  have each: "OnReceived a (r_data x) (r_size x)
           \<in> set (received (snd (ticks (length (m_responses u)) (u1, w1))))"
    if "x \<in> set (m_responses u)" "r_ip x = Inr a" for x a
    using run [of "length (m_responses u)"] handed_mem [OF that] by simp
  show ?thesis
    unfolding c prod.case using m run each by blast
qed

theorem close_keeps_queue_witness:
  "fst (Udp_close (udp_armed [good_response], world_armed [])) \<and>
   m_fd (fst (snd (Udp_close (udp_armed [good_response], world_armed [])))) = - 1 \<and>
   m_responses (fst (snd (Udp_close (udp_armed [good_response], world_armed [])))) = [good_response] \<and>
   m_idle (fst (snd (Udp_close (udp_armed [good_response], world_armed [])))) = Some 1 \<and>
   received (snd (ticks 1 (snd (Udp_close (udp_armed [good_response], world_armed []))))) =
     [OnReceived (Ip4 0xC0000201) [3] 1]"
proof -
  let ?u = "udp_armed [good_response]"
  let ?w = "world_armed []"
  obtain r u1 w1 where c: "Udp_close (?u, ?w) = (r, u1, w1)"
    by (cases "Udp_close (?u, ?w)") auto
  have v: "r" "m_fd u1 = - 1"
    using c by (auto simp: Udp_close_def udp_armed_def)
  have q: "m_responses ?u = [good_response]" "m_idle ?u = Some 1" "length [good_response] = 1"
    by (simp_all add: udp_armed_def)
  have e: "received ?w @ concat (map handed (take 1 [good_response])) = [OnReceived (Ip4 0xC0000201) [3] 1]"
    by (simp add: received_def world_armed_def handed_def good_response_def r_size_def)
  note t = close_keeps_queue [of ?u ?w, unfolded c prod.case q]
  have t1: "m_responses u1 = [good_response]" "m_idle u1 = Some 1"
    using t by blast+
  have t2: "received (snd (ticks 1 (u1, w1))) = [OnReceived (Ip4 0xC0000201) [3] 1]"
    using t [THEN conjunct2, THEN conjunct2, THEN conjunct2, THEN conjunct2, THEN conjunct2,
             THEN conjunct1, rule_format, of 1]
    unfolding e by simp
  show ?thesis unfolding c using v t1 t2 by simp
qed

subsection \<open>The closed transport\<close>

text \<open>
  Claim C9. \<open>readable()\<close> on a transport without a descriptor returns false, and the
  world is the same afterwards: no \<open>poll\<close> has been made.
\<close>
theorem readable_closed:
  "m_fd u < 0 \<Longrightarrow> Udp_readable (u, w) = (False, w)"
  by (simp add: Udp_readable_def)

theorem readable_closed_witness:
  "m_fd Udp < 0 \<and> Udp_readable (Udp, world0) = (False, world0)"
  using readable_closed [of Udp world0] by (simp add: Udp_def)

text \<open>
  Claim C10. \<open>notify()\<close> on a transport without a descriptor returns at once: nothing
  is received, the queue and the watcher are as before, and so is the world.
\<close>
theorem notify_closed:
  "m_fd u < 0 \<Longrightarrow> Udp_notify (u, w) = (u, w)"
  by (simp add: Udp_notify_def)

theorem notify_closed_witness:
  "m_fd Udp < 0 \<and> Udp_notify (Udp, world0) = (Udp, world0)"
  using notify_closed [of Udp world0] by (simp add: Udp_def)

end
